theory Spec2Isabelle
  imports Complex_Main
begin

section \<open>Click particle effect: the model\<close>

text \<open>
  The development embeds the two scripts of the repository: the refined variant
  \<^verbatim>\<open>src/js/click-particles.js\<close> and the base variant \<^verbatim>\<open>src/unnamed/part_000\<close>.
  JavaScript numbers are idealised as reals, times are whole milliseconds, and the
  browser (timers, animation frames, \<^verbatim>\<open>Math.random\<close>, the 2D context) is an explicit
  part of the state: every call the scripts make to it is a function on that state.
  The listener for visibility changes has an empty body and is left out; of the base
  variant the particle, the frame callback and the click listener are embedded (its
  touch listener repeats the click listener's test).
\<close>

subsection \<open>Configuration\<close>

definition particleCount :: nat where
  "particleCount = 30"

definition particleSpeed :: real where
  "particleSpeed = 5"

definition particleSize :: real where
  "particleSize = 3"

definition colors :: "string list" where
  "colors =
    [''#ff5e57'', ''#f3a683'', ''#778beb'', ''#f8a5c2'',
     ''#4ecdc4'', ''#45b7d1'', ''#f9ca24'', ''#6c5ce7'',
     ''#a29bfe'', ''#fd79a8'', ''#fdcb6e'', ''#e17055'']"

definition gravity :: real where
  "gravity = 0.3"

definition throttleDelay :: nat where
  "throttleDelay = 100"

text \<open>The delay written at the call \<^verbatim>\<open>debounce(resizeCanvas, 250)\<close>.\<close>

definition resizeDelay :: nat where
  "resizeDelay = 250"

subsection \<open>The document: event targets and selectors\<close>

text \<open>
  An element carries what the scripts read of it: \<^verbatim>\<open>tagName\<close>, and the local name and
  class list that selector matching looks at. An event target is an element together
  with its ancestors (nearest first), or a target that is no element (the document, the
  window), which has neither \<^verbatim>\<open>tagName\<close> nor \<^verbatim>\<open>closest\<close>. \<open>None\<close> is a null or
  undefined target.
\<close>

record element =
  tagName :: string
  localName :: string
  classList :: "string list"

datatype event_target = Element element "element list" | NonElement

datatype selector = TypeSel string | ClassSel string

fun matches :: "element \<Rightarrow> selector \<Rightarrow> bool" where
  "matches e (TypeSel t) = (localName e = t)"
| "matches e (ClassSel c) = (c \<in> set (classList e))"

text \<open>\<^verbatim>\<open>el.closest(sel)\<close>: the element itself or its nearest ancestor matching \<open>sel\<close>.\<close>

definition closest :: "element \<Rightarrow> element list \<Rightarrow> selector \<Rightarrow> element option" where
  "closest e ancestors sel = find (\<lambda>a. matches a sel) (e # ancestors)"

subsection \<open>Particles\<close>

record particle =
  x_pos :: real
  y_pos :: real
  vx :: real
  vy :: real
  color :: "string option"
  size_px :: real
  life :: real
  decay :: real

text \<open>The calls made on the 2D context, in order.\<close>

datatype ctx_op =
    ClearRect real real real real
  | Save
  | GlobalAlpha real
  | FillStyle "string option"
  | BeginPath
  | Arc real real real real real
  | Fill
  | Restore

datatype listener = ClickListener | TouchListener | ResizeListener

text \<open>
  What the listeners read of an event: the pointer position, the touch points (their
  \<^verbatim>\<open>clientX\<close> and \<^verbatim>\<open>clientY\<close>) and the target.
\<close>

record event =
  clientX :: real
  clientY :: real
  touches :: "(real \<times> real) list"
  target :: "event_target option"

text \<open>
  The arrow functions handed to \<^verbatim>\<open>setTimeout\<close>: the one \<^verbatim>\<open>throttle\<close> makes (with the
  arguments of the call it defers) and the one \<^verbatim>\<open>debounce\<close> makes.
\<close>

datatype callback = ThrottleFire listener event | DebounceFire

record page =
  particles :: "particle list"
  animationId :: "nat option"
  canvas_width :: nat
  canvas_height :: nat
  ctx_log :: "ctx_op list"
  timeout :: "listener \<Rightarrow> nat option"
  innerWidth :: nat
  innerHeight :: nat
  draws :: nat
  frame_requests :: "nat list"
  next_frame :: nat
  timers :: "(nat \<times> nat \<times> callback) list"
  next_timer :: nat
  now :: nat
  ran :: "(nat \<times> callback) list"

text \<open>
  \<^verbatim>\<open>Math.random()\<close>: the browser's sequence of samples is the parameter \<open>rnd\<close>, and the
  state counts the samples drawn so far.
\<close>

definition Math_random :: "(nat \<Rightarrow> real) \<Rightarrow> page \<Rightarrow> real \<times> page" where
  "Math_random rnd s = (rnd (draws s), s\<lparr>draws := Suc (draws s)\<rparr>)"

definition unit_samples :: "(nat \<Rightarrow> real) \<Rightarrow> bool" where
  "unit_samples rnd = (\<forall>n. 0 \<le> rnd n \<and> rnd n < 1)"

text \<open>\<^verbatim>\<open>config.colors[i]\<close>: undefined outside the palette.\<close>

definition colors_at :: "int \<Rightarrow> string option" where
  "colors_at i = (if 0 \<le> i \<and> i < int (length colors) then Some (colors ! nat i) else None)"

definition Particle :: "(nat \<Rightarrow> real) \<Rightarrow> real \<Rightarrow> real \<Rightarrow> page \<Rightarrow> particle \<times> page" where
  "Particle rnd x y s =
    (let (r1, s1) = Math_random rnd s;
         (r2, s2) = Math_random rnd s1;
         (r3, s3) = Math_random rnd s2;
         (r4, s4) = Math_random rnd s3;
         (r5, s5) = Math_random rnd s4
     in (\<lparr>x_pos = x, y_pos = y,
          vx = (r1 - 0.5) * particleSpeed * 2,
          vy = (r2 - 0.5) * particleSpeed * 2,
          color = colors_at \<lfloor>r3 * real (length colors)\<rfloor>,
          size_px = r4 * particleSize + 1,
          life = 1.0,
          decay = r5 * 0.02 + 0.01\<rparr>, s5))"

text \<open>\<^verbatim>\<open>update()\<close> mutates the particle and returns whether it is still alive.\<close>

definition update :: "particle \<Rightarrow> bool \<times> particle" where
  "update p =
    (let p1 = p\<lparr>x_pos := x_pos p + vx p\<rparr>;
         p2 = p1\<lparr>y_pos := y_pos p1 + vy p1\<rparr>;
         p3 = p2\<lparr>vy := vy p2 + gravity\<rparr>;
         p4 = p3\<lparr>life := life p3 - decay p3\<rparr>
     in (life p4 > 0, p4))"

definition draw :: "particle \<Rightarrow> ctx_op list \<Rightarrow> ctx_op list" where
  "draw p ops =
    ops @ [Save, GlobalAlpha (life p), FillStyle (color p), BeginPath,
           Arc (x_pos p) (y_pos p) (size_px p) 0 (pi * 2), Fill, Restore]"

subsection \<open>The module state and the frame loop\<close>

text \<open>
  The page once the script has run, in a window of \<open>w\<close> by \<open>h\<close> pixels: the canvas has
  the size of the viewport (the first call of \<^verbatim>\<open>resizeCanvas\<close>), no particle is active,
  no frame is requested and no timer is set.
\<close>

definition init :: "nat \<Rightarrow> nat \<Rightarrow> page" where
  "init w h =
    \<lparr>particles = [], animationId = None, canvas_width = w, canvas_height = h,
     ctx_log = [], timeout = (\<lambda>_. None), innerWidth = w, innerHeight = h, draws = 0,
     frame_requests = [], next_frame = 0, timers = [], next_timer = 0, now = 0,
     ran = []\<rparr>"

definition resizeCanvas :: "page \<Rightarrow> page" where
  "resizeCanvas s = s\<lparr>canvas_width := innerWidth s, canvas_height := innerHeight s\<rparr>"

text \<open>
  \<^verbatim>\<open>requestAnimationFrame(animate)\<close>: the browser queues the callback and returns a
  fresh, non-zero handle.
\<close>

definition requestAnimationFrame :: "page \<Rightarrow> nat \<times> page" where
  "requestAnimationFrame s =
    (let h = Suc (next_frame s)
     in (h, s\<lparr>frame_requests := frame_requests s @ [h], next_frame := h\<rparr>))"

text \<open>\<^verbatim>\<open>!v\<close> on a handle: null, undefined and 0 are falsy.\<close>

definition falsy :: "nat option \<Rightarrow> bool" where
  "falsy v = (v = None \<or> v = Some 0)"

fun createParticles_loop :: "nat \<Rightarrow> (nat \<Rightarrow> real) \<Rightarrow> real \<Rightarrow> real \<Rightarrow> page \<Rightarrow> page" where
  "createParticles_loop 0 rnd x y s = s"
| "createParticles_loop (Suc n) rnd x y s =
    (let (p, s1) = Particle rnd x y s
     in createParticles_loop n rnd x y (s1\<lparr>particles := particles s1 @ [p]\<rparr>))"

definition createParticles :: "(nat \<Rightarrow> real) \<Rightarrow> real \<Rightarrow> real \<Rightarrow> page \<Rightarrow> page" where
  "createParticles rnd x y s = createParticles_loop particleCount rnd x y s"

text \<open>
  The loop of the refined \<^verbatim>\<open>animate\<close>: update each particle in order; draw and keep
  the ones still alive.
\<close>

fun animate_loop ::
  "particle list \<Rightarrow> particle list \<Rightarrow> ctx_op list \<Rightarrow> particle list \<times> ctx_op list" where
  "animate_loop [] aliveParticles ops = (aliveParticles, ops)"
| "animate_loop (p # ps) aliveParticles ops =
    (let (alive, p') = update p
     in if alive then animate_loop ps (aliveParticles @ [p']) (draw p' ops)
        else animate_loop ps aliveParticles ops)"

text \<open>The last statement of \<^verbatim>\<open>animate\<close>, the same in both variants.\<close>

definition reschedule :: "page \<Rightarrow> page" where
  "reschedule s =
    (if length (particles s) > 0
     then (let (h, s1) = requestAnimationFrame s in s1\<lparr>animationId := Some h\<rparr>)
     else s\<lparr>animationId := None\<rparr>)"

definition animate :: "page \<Rightarrow> page" where
  "animate s =
    (if length (particles s) = 0 then s\<lparr>animationId := None\<rparr>
     else
       (let ops = ctx_log s @ [ClearRect 0 0 (real (canvas_width s)) (real (canvas_height s))];
            (aliveParticles, ops') = animate_loop (particles s) [] ops
        in reschedule (s\<lparr>ctx_log := ops', particles := aliveParticles\<rparr>)))"

text \<open>
  The base variant filters the list with a callback that updates the particle and draws
  it when alive; it has no early return on an empty list.
\<close>

fun filter_alive :: "particle list \<Rightarrow> ctx_op list \<Rightarrow> particle list \<times> ctx_op list" where
  "filter_alive [] ops = ([], ops)"
| "filter_alive (p # ps) ops =
    (let (alive, p') = update p;
         ops1 = (if alive then draw p' ops else ops);
         (kept, ops2) = filter_alive ps ops1
     in (if alive then p' # kept else kept, ops2))"

definition animate_base :: "page \<Rightarrow> page" where
  "animate_base s =
    (let ops = ctx_log s @ [ClearRect 0 0 (real (canvas_width s)) (real (canvas_height s))];
         (kept, ops') = filter_alive (particles s) ops
     in reschedule (s\<lparr>ctx_log := ops', particles := kept\<rparr>))"

subsection \<open>Spawning\<close>

definition excludeSelectors :: "string list" where
  "excludeSelectors = [''CODE'', ''PRE'', ''BUTTON'', ''A'', ''INPUT'', ''TEXTAREA'', ''SELECT'']"

definition excludeContainers :: "selector list" where
  "excludeContainers =
    [TypeSel ''pre'', TypeSel ''code'', TypeSel ''button'', ClassSel ''copy-btn'', TypeSel ''a'']"

fun shouldCreateParticles :: "event_target option \<Rightarrow> bool" where
  "shouldCreateParticles None = False"
| "shouldCreateParticles (Some NonElement) = True"
| "shouldCreateParticles (Some (Element e ancestors)) =
    (if tagName e \<in> set excludeSelectors then False
     else if \<exists>sel \<in> set excludeContainers. closest e ancestors sel \<noteq> None then False
     else True)"

definition handleParticleCreation ::
  "(nat \<Rightarrow> real) \<Rightarrow> real \<Rightarrow> real \<Rightarrow> event_target option \<Rightarrow> page \<Rightarrow> page" where
  "handleParticleCreation rnd x y tgt s =
    (if \<not> shouldCreateParticles tgt then s
     else
       (let s1 = createParticles rnd x y s
        in if falsy (animationId s1)
           then (let (h, s2) = requestAnimationFrame s1 in s2\<lparr>animationId := Some h\<rparr>)
           else s1))"

text \<open>
  The exclusion test of the base variant's listeners. Reading \<^verbatim>\<open>tagName\<close> of a null
  target, or calling \<^verbatim>\<open>closest\<close> on a target that has none, throws.
\<close>

datatype error = TypeError

fun base_excluded :: "event_target option \<Rightarrow> error + bool" where
  "base_excluded None = Inl TypeError"
| "base_excluded (Some NonElement) = Inl TypeError"
| "base_excluded (Some (Element e ancestors)) =
    Inr (tagName e = ''CODE'' \<or> tagName e = ''PRE''
         \<or> closest e ancestors (TypeSel ''pre'') \<noteq> None
         \<or> closest e ancestors (TypeSel ''button'') \<noteq> None
         \<or> closest e ancestors (ClassSel ''copy-btn'') \<noteq> None)"

definition base_click :: "(nat \<Rightarrow> real) \<Rightarrow> real \<Rightarrow> real \<Rightarrow> event_target option \<Rightarrow> page \<Rightarrow> error + page" where
  "base_click rnd x y tgt s =
    (case base_excluded tgt of
       Inl err \<Rightarrow> Inl err
     | Inr True \<Rightarrow> Inr s
     | Inr False \<Rightarrow>
         (let s1 = createParticles rnd x y s
          in if falsy (animationId s1)
             then (let (h, s2) = requestAnimationFrame s1 in Inr (s2\<lparr>animationId := Some h\<rparr>))
             else Inr s1))"

subsection \<open>Timers, throttle and debounce\<close>

text \<open>
  \<^verbatim>\<open>setTimeout(cb, wait)\<close>: the browser records the callback with the time it falls due
  and returns a fresh, non-zero handle. \<^verbatim>\<open>clearTimeout(v)\<close> drops the timer of that
  handle, if there is one.
\<close>

definition setTimeout :: "callback \<Rightarrow> nat \<Rightarrow> page \<Rightarrow> nat \<times> page" where
  "setTimeout cb wait s =
    (let h = Suc (next_timer s)
     in (h, s\<lparr>timers := timers s @ [(h, now s + wait, cb)], next_timer := h\<rparr>))"

definition clearTimeout :: "nat option \<Rightarrow> page \<Rightarrow> page" where
  "clearTimeout v s =
    (case v of
       None \<Rightarrow> s
     | Some h \<Rightarrow> s\<lparr>timers := filter (\<lambda>(h', due, cb). h' \<noteq> h) (timers s)\<rparr>)"

text \<open>
  The function that \<^verbatim>\<open>throttle(func, wait)\<close> returns, called with \<open>args\<close>. Its
  closure variable \<^verbatim>\<open>timeout\<close> is the cell of the listener \<open>l\<close> it wraps.
\<close>

definition throttle :: "listener \<Rightarrow> nat \<Rightarrow> event \<Rightarrow> page \<Rightarrow> page" where
  "throttle l wait args s =
    (if falsy (timeout s l)
     then (let (h, s1) = setTimeout (ThrottleFire l args) wait s
           in s1\<lparr>timeout := (timeout s1)(l := Some h)\<rparr>)
     else s)"

text \<open>
  The function that \<^verbatim>\<open>debounce(resizeCanvas, wait)\<close> returns. The script debounces
  this one function only: the closure variable \<^verbatim>\<open>timeout\<close> is the cell of the resize
  listener, and the arguments of the call are not kept, as \<^verbatim>\<open>resizeCanvas\<close> takes none.
\<close>

definition debounce :: "nat \<Rightarrow> page \<Rightarrow> page" where
  "debounce wait s =
    (let s1 = clearTimeout (timeout s ResizeListener) s;
         (h, s2) = setTimeout DebounceFire wait s1
     in s2\<lparr>timeout := (timeout s2)(ResizeListener := Some h)\<rparr>)"

text \<open>The function each wrapper was given.\<close>

fun func :: "(nat \<Rightarrow> real) \<Rightarrow> listener \<Rightarrow> event \<Rightarrow> page \<Rightarrow> page" where
  "func rnd ClickListener e s = handleParticleCreation rnd (clientX e) (clientY e) (target e) s"
| "func rnd TouchListener e s =
    (case touches e of
       [] \<Rightarrow> s
     | touch # _ \<Rightarrow> handleParticleCreation rnd (fst touch) (snd touch) (target e) s)"
| "func rnd ResizeListener e s = resizeCanvas s"

text \<open>
  Running a timer's callback. The one of \<^verbatim>\<open>throttle\<close> clears the closure variable and
  calls the function; the one of \<^verbatim>\<open>debounce\<close> only calls the function. The browser's
  record \<open>ran\<close> of the callbacks it has run, each with its time, is kept here.
\<close>

fun run_callback :: "(nat \<Rightarrow> real) \<Rightarrow> callback \<Rightarrow> page \<Rightarrow> page" where
  "run_callback rnd (ThrottleFire l args) s =
    func rnd l args (s\<lparr>timeout := (timeout s)(l := None), ran := ran s @ [(now s, ThrottleFire l args)]\<rparr>)"
| "run_callback rnd DebounceFire s =
    resizeCanvas (s\<lparr>ran := ran s @ [(now s, DebounceFire)]\<rparr>)"

fun run_timers :: "(nat \<Rightarrow> real) \<Rightarrow> (nat \<times> nat \<times> callback) list \<Rightarrow> page \<Rightarrow> page" where
  "run_timers rnd [] s = s"
| "run_timers rnd ((h, due, cb) # ts) s = run_timers rnd ts (run_callback rnd cb s)"

text \<open>
  One millisecond passes: the browser takes the timers that have fallen due out of its
  table and runs them, oldest first. A timer runs in the millisecond it falls due.
\<close>

definition is_due :: "nat \<Rightarrow> nat \<times> nat \<times> callback \<Rightarrow> bool" where
  "is_due t tm = (fst (snd tm) \<le> t)"

definition tick :: "(nat \<Rightarrow> real) \<Rightarrow> page \<Rightarrow> page" where
  "tick rnd s =
    (let t = Suc (now s)
     in run_timers rnd (filter (is_due t) (timers s))
          (s\<lparr>now := t, timers := filter (\<lambda>tm. \<not> is_due t tm) (timers s)\<rparr>))"

fun elapse :: "(nat \<Rightarrow> real) \<Rightarrow> nat \<Rightarrow> page \<Rightarrow> page" where
  "elapse rnd 0 s = s"
| "elapse rnd (Suc n) s = elapse rnd n (tick rnd s)"

text \<open>The browser runs the oldest queued animation frame callback, which is \<^verbatim>\<open>animate\<close>.\<close>

definition frame :: "page \<Rightarrow> page" where
  "frame s =
    (case frame_requests s of
       [] \<Rightarrow> s
     | h # hs \<Rightarrow> animate (s\<lparr>frame_requests := hs\<rparr>))"

text \<open>
  What the browser does to the page of the refined variant: it dispatches a click, a
  touch start or a resize (after the viewport has taken its new size) to the registered
  listener, lets time pass, or runs an animation frame.
\<close>

datatype host_event = Click event | TouchStart event | Resize nat nat | Elapse nat | Frame

fun step :: "(nat \<Rightarrow> real) \<Rightarrow> host_event \<Rightarrow> page \<Rightarrow> page" where
  "step rnd (Click e) s = throttle ClickListener throttleDelay e s"
| "step rnd (TouchStart e) s = throttle TouchListener throttleDelay e s"
| "step rnd (Resize w h) s =
    debounce resizeDelay (s\<lparr>innerWidth := w, innerHeight := h\<rparr>)"
| "step rnd (Elapse d) s = elapse rnd d s"
| "step rnd Frame s = frame s"

fun run :: "(nat \<Rightarrow> real) \<Rightarrow> host_event list \<Rightarrow> page \<Rightarrow> page" where
  "run rnd [] s = s"
| "run rnd (ev # evs) s = run rnd evs (step rnd ev s)"

inductive reachable :: "(nat \<Rightarrow> real) \<Rightarrow> page \<Rightarrow> bool" for rnd where
  reachable_init: "reachable rnd (init w h)"
| reachable_step: "reachable rnd s \<Longrightarrow> reachable rnd (step rnd ev s)"

text \<open>
  The frame loop, left to itself: the browser runs animation frames as long as one is
  requested, at most \<open>fuel\<close> of them. The result counts the frames run.
\<close>

fun run_frames :: "nat \<Rightarrow> page \<Rightarrow> nat \<times> page" where
  "run_frames 0 s = (0, s)"
| "run_frames (Suc fuel) s =
    (if frame_requests s = [] then (0, s)
     else (let (k, s') = run_frames fuel (frame s) in (Suc k, s')))"

subsection \<open>Notions used to state the results\<close>

text \<open>The particle after \<open>n\<close> calls of \<^verbatim>\<open>update\<close>.\<close>

fun updates :: "nat \<Rightarrow> particle \<Rightarrow> particle" where
  "updates 0 p = p"
| "updates (Suc n) p = updates n (snd (update p))"

text \<open>
  The particle that the constructor builds at \<open>(x, y)\<close> when \<open>k\<close> samples have been drawn
  before, and the \<open>n\<close> particles that \<open>n\<close> successive constructions build.
\<close>

definition Particle_at :: "(nat \<Rightarrow> real) \<Rightarrow> real \<Rightarrow> real \<Rightarrow> nat \<Rightarrow> particle" where
  "Particle_at rnd x y k =
    \<lparr>x_pos = x, y_pos = y,
     vx = (rnd k - 0.5) * particleSpeed * 2,
     vy = (rnd (k + 1) - 0.5) * particleSpeed * 2,
     color = colors_at \<lfloor>rnd (k + 2) * real (length colors)\<rfloor>,
     size_px = rnd (k + 3) * particleSize + 1,
     life = 1.0,
     decay = rnd (k + 4) * 0.02 + 0.01\<rparr>"

fun batch :: "(nat \<Rightarrow> real) \<Rightarrow> real \<Rightarrow> real \<Rightarrow> nat \<Rightarrow> nat \<Rightarrow> particle list" where
  "batch rnd x y k 0 = []"
| "batch rnd x y k (Suc n) = Particle_at rnd x y k # batch rnd x y (k + 5) n"

text \<open>
  The wrapper a timer callback belongs to, the pending timers of a wrapper, and the
  entries of the browser's record that are runs of a wrapper's callback.
\<close>

fun owner :: "callback \<Rightarrow> listener" where
  "owner (ThrottleFire l args) = l"
| "owner DebounceFire = ResizeListener"

definition own :: "listener \<Rightarrow> (nat \<times> nat \<times> callback) list \<Rightarrow> (nat \<times> nat \<times> callback) list" where
  "own l ts = filter (\<lambda>tm. owner (snd (snd tm)) = l) ts"

definition own_ran :: "listener \<Rightarrow> (nat \<times> callback) list \<Rightarrow> (nat \<times> callback) list" where
  "own_ran l rs = filter (\<lambda>r. owner (snd r) = l) rs"

text \<open>
  The event the browser dispatches to a throttled listener (a click to the click
  listener, a touch start to the touch listener), and the other throttled listener. A
  burst of such events after a first one, and a burst of resizes after a first one: each
  further event comes with the time in milliseconds since the event before it.
\<close>

definition pointer :: "listener \<Rightarrow> event \<Rightarrow> host_event" where
  "pointer l e = (if l = TouchListener then TouchStart e else Click e)"

definition other :: "listener \<Rightarrow> listener" where
  "other l = (if l = TouchListener then ClickListener else TouchListener)"

fun pointer_burst :: "listener \<Rightarrow> (nat \<times> event) list \<Rightarrow> host_event list" where
  "pointer_burst l [] = []"
| "pointer_burst l ((gap, e) # rest) = Elapse gap # pointer l e # pointer_burst l rest"

fun resize_burst :: "(nat \<times> nat \<times> nat) list \<Rightarrow> host_event list" where
  "resize_burst [] = []"
| "resize_burst ((gap, w, h) # rest) = Elapse gap # Resize w h # resize_burst rest"

text \<open>
  No pending timer of the wrapper \<open>l\<close> falls due within the next \<open>d\<close> milliseconds.
\<close>

definition quiet :: "listener \<Rightarrow> nat \<Rightarrow> page \<Rightarrow> bool" where
  "quiet l d s \<longleftrightarrow> (\<forall>tm \<in> set (own l (timers s)). now s + d < fst (snd tm))"

text \<open>
  What holds of the frame loop in every state the page can reach: the one pending frame
  request is the one \<^verbatim>\<open>animationId\<close> names, the loop is idle exactly when no particle is
  active, and every active particle is alive, with a life of at most 1 and a decay rate
  of at least 0.01. \<open>aged n\<close> says that every active particle has lost the decay of
  \<open>n\<close> updates at least.
\<close>

definition loop_inv :: "page \<Rightarrow> bool" where
  "loop_inv s \<longleftrightarrow>
     frame_requests s = (case animationId s of None \<Rightarrow> [] | Some h \<Rightarrow> [h]) \<and>
     animationId s \<noteq> Some 0 \<and>
     (particles s = []) = (animationId s = None) \<and>
     (\<forall>p \<in> set (particles s). 0 < life p \<and> life p \<le> 1 \<and> 0.01 \<le> decay p)"

definition aged :: "nat \<Rightarrow> page \<Rightarrow> bool" where
  "aged n s \<longleftrightarrow> (\<forall>p \<in> set (particles s). life p \<le> 1 - real n * 0.01)"

text \<open>
  What holds of the timers in every state the page can reach: each wrapper has at most
  one pending timer, the one its closure variable names, and it is due in the future.
\<close>

definition timers_inv :: "page \<Rightarrow> bool" where
  "timers_inv s \<longleftrightarrow>
     distinct (map (\<lambda>tm. owner (snd (snd tm))) (timers s)) \<and>
     (\<forall>tm \<in> set (timers s).
        now s < fst (snd tm) \<and> 0 < fst tm \<and> timeout s (owner (snd (snd tm))) = Some (fst tm))"

section \<open>Particles: construction and update\<close>

lemma update_fields:
  "snd (update p) = p\<lparr>x_pos := x_pos p + vx p, y_pos := y_pos p + vy p,
                      vy := vy p + gravity, life := life p - decay p\<rparr>"
  "fst (update p) = (0 < life p - decay p)"
  by (simp_all add: update_def Let_def)

lemma Particle_eq:
  "Particle rnd x y s = (Particle_at rnd x y (draws s), s\<lparr>draws := draws s + 5\<rparr>)"
  by (simp add: Particle_def Particle_at_def Math_random_def eval_nat_numeral)

lemma decay_updates: "decay (updates n p) = decay p"
  by (induction n arbitrary: p) (simp_all add: update_fields)

lemma life_updates: "life (updates n p) = life p - real n * decay p"
proof (induction n arbitrary: p)
  case 0
  show ?case by simp
next
  case (Suc n)
  have "life (updates (Suc n) p) = life (snd (update p)) - real n * decay (snd (update p))"
    using Suc by simp
  also have "\<dots> = life p - real (Suc n) * decay p"
    by (simp add: update_fields algebra_simps)
  finally show ?case .
qed

lemma decay_Particle_at:
  "unit_samples rnd \<Longrightarrow>
     0.01 \<le> decay (Particle_at rnd x y k) \<and> decay (Particle_at rnd x y k) < 0.03"
proof -
  assume "unit_samples rnd"
  then have "0 \<le> rnd (k + 4)" "rnd (k + 4) < 1"
    by (simp_all add: unit_samples_def)
  then show ?thesis
    by (simp add: Particle_at_def)
qed

text \<open>
  C8: \<^verbatim>\<open>update\<close> adds the velocity to the position and the gravity constant 0.3 to the
  vertical velocity; the horizontal velocity, the colour, the size and the decay rate
  stay as they were. The base variant's \<^verbatim>\<open>update\<close> is the same function.
\<close>

theorem update_kinematics:
  "x_pos (snd (update p)) = x_pos p + vx p \<and>
   y_pos (snd (update p)) = y_pos p + vy p \<and>
   vy (snd (update p)) = vy p + gravity \<and> gravity = 0.3 \<and>
   vx (snd (update p)) = vx p \<and>
   color (snd (update p)) = color p \<and>
   size_px (snd (update p)) = size_px p \<and>
   decay (snd (update p)) = decay p"
  by (simp add: update_fields gravity_def)

theorem update_kinematics_witness:
  "x_pos (snd (update (Particle_at (\<lambda>n. 1 / 2) 100 200 0))) = 100 \<and>
   y_pos (snd (update (Particle_at (\<lambda>n. 1 / 2) 100 200 0))) = 200 \<and>
   vy (snd (update (Particle_at (\<lambda>n. 1 / 2) 100 200 0))) = 0.3 \<and>
   vy (snd (update (snd (update (Particle_at (\<lambda>n. 1 / 2) 100 200 0))))) = 0.6 \<and>
   y_pos (snd (update (snd (update (Particle_at (\<lambda>n. 1 / 2) 100 200 0))))) = 200.3"
  using update_kinematics [of "Particle_at (\<lambda>n. 1 / 2) 100 200 0"]
    update_kinematics [of "snd (update (Particle_at (\<lambda>n. 1 / 2) 100 200 0))"]
  by (simp add: Particle_at_def)

text \<open>
  C2: for every particle the constructor has built, however often it has been updated
  since, a call of \<^verbatim>\<open>update\<close> takes the particle's decay rate off its life; the rate is
  the one sampled at construction, so the life strictly decreases; and the call returns
  false exactly when the resulting life is at most 0.
\<close>

theorem update_life:
  assumes "unit_samples rnd" and "p = updates n (fst (Particle rnd x y s))"
  shows "life (snd (update p)) = life p - decay p \<and>
         decay (snd (update p)) = decay p \<and>
         decay p = decay (fst (Particle rnd x y s)) \<and>
         life (snd (update p)) < life p \<and>
         (fst (update p) = False) = (life (snd (update p)) \<le> 0)"
proof -
  have d: "decay p = decay (Particle_at rnd x y (draws s))"
    using assms(2) by (simp add: decay_updates Particle_eq)
  have "0 < decay p"
    using decay_Particle_at [OF assms(1), of x y "draws s"] d by simp
  then show ?thesis
    using d by (auto simp: update_fields Particle_eq)
qed

theorem update_life_witness:
  "unit_samples (\<lambda>n. 1 / 2) \<and>
   life (snd (update (updates 3 (fst (Particle (\<lambda>n. 1 / 2) 100 100 (init 800 600))))))
     < life (updates 3 (fst (Particle (\<lambda>n. 1 / 2) 100 100 (init 800 600)))) \<and>
   life (snd (update (updates 3 (fst (Particle (\<lambda>n. 1 / 2) 100 100 (init 800 600)))))) = 0.92"
proof -
  have h: "unit_samples (\<lambda>n. 1 / 2)"
    by (simp add: unit_samples_def)
  show ?thesis
    using h update_life [OF h refl, of 3 100 100 "init 800 600"]
    by (simp add: Particle_eq Particle_at_def update_fields eval_nat_numeral)
qed

section \<open>The frame loop: one tick\<close>

lemma animate_loop_fst:
  "fst (animate_loop ps acc ops) = acc @ map (snd \<circ> update) (filter (fst \<circ> update) ps)"
  by (induction ps arbitrary: acc ops) (simp_all add: split_def Let_def)

lemma filter_alive_fst:
  "fst (filter_alive ps ops) = map (snd \<circ> update) (filter (fst \<circ> update) ps)"
  by (induction ps arbitrary: ops) (simp_all add: split_def Let_def)

lemma reschedule_fields:
  "particles (reschedule s) = particles s"
  "frame_requests (reschedule s) =
     (if particles s = [] then frame_requests s else frame_requests s @ [Suc (next_frame s)])"
  "animationId (reschedule s) = (if particles s = [] then None else Some (Suc (next_frame s)))"
  "next_frame (reschedule s) = (if particles s = [] then next_frame s else Suc (next_frame s))"
  by (simp_all add: reschedule_def requestAnimationFrame_def)

lemma animate_particles:
  "particles (animate s) = map (snd \<circ> update) (filter (fst \<circ> update) (particles s))"
  by (simp add: animate_def reschedule_fields split_def Let_def
      animate_loop_fst [where acc = "[]", simplified])

lemma animate_base_particles:
  "particles (animate_base s) = map (snd \<circ> update) (filter (fst \<circ> update) (particles s))"
  by (simp add: animate_base_def reschedule_fields split_def Let_def filter_alive_fst)

lemma animate_schedule:
  "frame_requests (animate s) =
     (if particles (animate s) = [] then frame_requests s
      else frame_requests s @ [Suc (next_frame s)])"
  "animationId (animate s) =
     (if particles (animate s) = [] then None else Some (Suc (next_frame s)))"
  by (simp_all add: animate_def reschedule_fields split_def Let_def)

lemma animate_base_schedule:
  "frame_requests (animate_base s) =
     (if particles (animate_base s) = [] then frame_requests s
      else frame_requests s @ [Suc (next_frame s)])"
  "animationId (animate_base s) =
     (if particles (animate_base s) = [] then None else Some (Suc (next_frame s)))"
  by (simp_all add: animate_base_def reschedule_fields split_def Let_def)

text \<open>
  C1: after a tick of the frame loop the active list holds exactly the particles of
  before whose \<^verbatim>\<open>update\<close> returned true, as updated and in their order; and the tick
  requests another animation frame if and only if that list is not empty. This holds
  of \<^verbatim>\<open>animate\<close> in both variants.
\<close>

theorem frame_tick_retains_alive:
  "particles (animate s) = map (snd \<circ> update) (filter (fst \<circ> update) (particles s)) \<and>
   (frame_requests (animate s) = frame_requests s @ [Suc (next_frame s)])
     = (particles (animate s) \<noteq> []) \<and>
   (frame_requests (animate s) = frame_requests s) = (particles (animate s) = []) \<and>
   (animationId (animate s) = None) = (particles (animate s) = []) \<and>
   particles (animate_base s) = map (snd \<circ> update) (filter (fst \<circ> update) (particles s)) \<and>
   (frame_requests (animate_base s) = frame_requests s @ [Suc (next_frame s)])
     = (particles (animate_base s) \<noteq> []) \<and>
   (frame_requests (animate_base s) = frame_requests s) = (particles (animate_base s) = []) \<and>
   (animationId (animate_base s) = None) = (particles (animate_base s) = [])"
  by (simp add: animate_schedule animate_base_schedule animate_particles animate_base_particles)

theorem frame_tick_retains_alive_witness:
  "particles (animate ((init 800 600)\<lparr>particles :=
      [\<lparr>x_pos = 10, y_pos = 20, vx = 1, vy = 2, color = None, size_px = 2, life = 0.5, decay = 0.02\<rparr>,
       \<lparr>x_pos = 30, y_pos = 40, vx = 3, vy = 4, color = None, size_px = 2, life = 0.01, decay = 0.02\<rparr>]\<rparr>))
     = [\<lparr>x_pos = 11, y_pos = 22, vx = 1, vy = 2.3, color = None, size_px = 2, life = 0.48, decay = 0.02\<rparr>] \<and>
   frame_requests (animate ((init 800 600)\<lparr>particles :=
      [\<lparr>x_pos = 10, y_pos = 20, vx = 1, vy = 2, color = None, size_px = 2, life = 0.5, decay = 0.02\<rparr>,
       \<lparr>x_pos = 30, y_pos = 40, vx = 3, vy = 4, color = None, size_px = 2, life = 0.01, decay = 0.02\<rparr>]\<rparr>))
     = [1] \<and>
   particles (animate_base ((init 800 600)\<lparr>particles :=
      [\<lparr>x_pos = 30, y_pos = 40, vx = 3, vy = 4, color = None, size_px = 2, life = 0.01, decay = 0.02\<rparr>]\<rparr>))
     = [] \<and>
   frame_requests (animate_base ((init 800 600)\<lparr>particles :=
      [\<lparr>x_pos = 30, y_pos = 40, vx = 3, vy = 4, color = None, size_px = 2, life = 0.01, decay = 0.02\<rparr>]\<rparr>))
     = []"
  using
    frame_tick_retains_alive [of "(init 800 600)\<lparr>particles :=
      [\<lparr>x_pos = 10, y_pos = 20, vx = 1, vy = 2, color = None, size_px = 2, life = 0.5, decay = 0.02\<rparr>,
       \<lparr>x_pos = 30, y_pos = 40, vx = 3, vy = 4, color = None, size_px = 2, life = 0.01, decay = 0.02\<rparr>]\<rparr>"]
    frame_tick_retains_alive [of "(init 800 600)\<lparr>particles :=
      [\<lparr>x_pos = 30, y_pos = 40, vx = 3, vy = 4, color = None, size_px = 2, life = 0.01, decay = 0.02\<rparr>]\<rparr>"]
  by (simp add: update_fields init_def gravity_def)

section \<open>Spawning and the exclusion test\<close>

lemma createParticles_loop_eq:
  "createParticles_loop n rnd x y s =
     s\<lparr>particles := particles s @ batch rnd x y (draws s) n, draws := draws s + 5 * n\<rparr>"
  by (induction n arbitrary: s) (simp_all add: Particle_eq)

lemma length_batch: "length (batch rnd x y k n) = n"
  by (induction n arbitrary: k) simp_all

lemma batch_origin:
  "p \<in> set (batch rnd x y k n) \<Longrightarrow> x_pos p = x \<and> y_pos p = y \<and> life p = 1"
  by (induction n arbitrary: k) (auto simp: Particle_at_def)

lemma createParticles_eq:
  "createParticles rnd x y s =
     s\<lparr>particles := particles s @ batch rnd x y (draws s) particleCount,
       draws := draws s + 5 * particleCount\<rparr>"
  by (simp add: createParticles_def createParticles_loop_eq)

lemma handleParticleCreation_excluded:
  "\<not> shouldCreateParticles tgt \<Longrightarrow> handleParticleCreation rnd x y tgt s = s"
  by (simp add: handleParticleCreation_def)

lemma handleParticleCreation_particles:
  "particles (handleParticleCreation rnd x y tgt s) =
     particles s @ (if shouldCreateParticles tgt then batch rnd x y (draws s) particleCount else [])"
  by (simp add: handleParticleCreation_def createParticles_eq requestAnimationFrame_def Let_def)

lemma closest_None:
  "closest e anc sel = None \<longleftrightarrow> \<not> (\<exists>a \<in> set (e # anc). matches a sel)"
  unfolding closest_def find_None_iff by blast

lemma closest_iff:
  "(\<exists>a. closest e anc sel = Some a) \<longleftrightarrow> (\<exists>a \<in> set (e # anc). matches a sel)"
  "closest e anc sel \<noteq> None \<longleftrightarrow> (\<exists>a \<in> set (e # anc). matches a sel)"
  using closest_None [of e anc sel] by auto

lemma shouldCreateParticles_Element:
  "shouldCreateParticles (Some (Element e anc)) \<longleftrightarrow>
     \<not> (tagName e \<in> {''CODE'', ''PRE'', ''BUTTON'', ''A'', ''INPUT'', ''TEXTAREA'', ''SELECT''}
        \<or> (\<exists>a \<in> set (e # anc).
              localName a \<in> {''pre'', ''code'', ''button'', ''a''}
              \<or> ''copy-btn'' \<in> set (classList a)))"
  by (auto simp: closest_iff closest_None excludeSelectors_def excludeContainers_def)

lemma base_excluded_Element:
  "base_excluded (Some (Element e anc)) =
     Inr (tagName e \<in> {''CODE'', ''PRE''}
        \<or> (\<exists>a \<in> set (e # anc).
              localName a \<in> {''pre'', ''button''} \<or> ''copy-btn'' \<in> set (classList a)))"
  by (auto simp: closest_iff closest_None)

text \<open>
  C3: a spawn request at \<open>(x, y)\<close> whose target is not excluded appends exactly
  \<^verbatim>\<open>particleCount\<close> = 30 new particles to the active list, each built at \<open>(x, y)\<close>; a
  request whose target is excluded leaves the whole state as it was.
\<close>

theorem spawn_batch:
  "(shouldCreateParticles tgt \<longrightarrow>
      particles (handleParticleCreation rnd x y tgt s)
        = particles s @ batch rnd x y (draws s) particleCount \<and>
      length (batch rnd x y (draws s) particleCount) = 30 \<and>
      (\<forall>p \<in> set (batch rnd x y (draws s) particleCount). x_pos p = x \<and> y_pos p = y)) \<and>
   (\<not> shouldCreateParticles tgt \<longrightarrow> handleParticleCreation rnd x y tgt s = s)"
  using batch_origin [of _ rnd x y "draws s" particleCount]
  by (simp add: handleParticleCreation_particles handleParticleCreation_excluded length_batch
      particleCount_def)

theorem spawn_batch_witness:
  "shouldCreateParticles
      (Some (Element \<lparr>tagName = ''DIV'', localName = ''div'', classList = []\<rparr> [])) \<and>
   length (particles (handleParticleCreation (\<lambda>n. 0) 100 100
      (Some (Element \<lparr>tagName = ''DIV'', localName = ''div'', classList = []\<rparr> []))
      (init 800 600))) = 30 \<and>
   \<not> shouldCreateParticles
      (Some (Element \<lparr>tagName = ''BUTTON'', localName = ''button'', classList = []\<rparr> [])) \<and>
   handleParticleCreation (\<lambda>n. 0) 100 100
      (Some (Element \<lparr>tagName = ''BUTTON'', localName = ''button'', classList = []\<rparr> []))
      (init 800 600) = init 800 600"
  using
    spawn_batch [of "Some (Element \<lparr>tagName = ''DIV'', localName = ''div'', classList = []\<rparr> [])"
      "\<lambda>n. 0" 100 100 "init 800 600"]
    spawn_batch [of
      "Some (Element \<lparr>tagName = ''BUTTON'', localName = ''button'', classList = []\<rparr> [])"
      "\<lambda>n. 0" 100 100 "init 800 600"]
  by (simp add: excludeSelectors_def excludeContainers_def closest_def init_def)

text \<open>
  C4, as stated, fails: the form controls are in the list of tag names tested on the
  target itself, not in the list of containers tested on its ancestors. A click on an
  \<^verbatim>\<open>option\<close> inside a \<^verbatim>\<open>select\<close> spawns a batch.
\<close>

theorem exclusion_select_ancestor_counterexample:
  "closest \<lparr>tagName = ''OPTION'', localName = ''option'', classList = []\<rparr>
      [\<lparr>tagName = ''SELECT'', localName = ''select'', classList = []\<rparr>] (TypeSel ''select'')
     = Some \<lparr>tagName = ''SELECT'', localName = ''select'', classList = []\<rparr> \<and>
   length (particles (handleParticleCreation (\<lambda>n. 0) 10 20
      (Some (Element \<lparr>tagName = ''OPTION'', localName = ''option'', classList = []\<rparr>
         [\<lparr>tagName = ''SELECT'', localName = ''select'', classList = []\<rparr>]))
      (init 800 600))) = 30"
  by (simp add: handleParticleCreation_particles length_batch particleCount_def
      excludeSelectors_def excludeContainers_def closest_def init_def)

text \<open>
  C4, amended: a spawn request adds no particle (the state is unchanged) when the
  target's own tag name is CODE, PRE, BUTTON, A, INPUT, TEXTAREA or SELECT, or when the
  target or one of its ancestors is a \<^verbatim>\<open>pre\<close>, \<^verbatim>\<open>code\<close>, \<^verbatim>\<open>button\<close> or \<^verbatim>\<open>a\<close> element or
  has the class \<^verbatim>\<open>copy-btn\<close>.
\<close>

theorem exclusion_no_particles:
  assumes "tagName e \<in> {''CODE'', ''PRE'', ''BUTTON'', ''A'', ''INPUT'', ''TEXTAREA'', ''SELECT''}
    \<or> (\<exists>a \<in> set (e # anc).
          localName a \<in> {''pre'', ''code'', ''button'', ''a''} \<or> ''copy-btn'' \<in> set (classList a))"
  shows "handleParticleCreation rnd x y (Some (Element e anc)) s = s"
proof -
  have "\<not> shouldCreateParticles (Some (Element e anc))"
    using assms unfolding shouldCreateParticles_Element by blast
  then show ?thesis
    by (rule handleParticleCreation_excluded)
qed

theorem exclusion_no_particles_witness:
  "handleParticleCreation (\<lambda>n. 0) 10 20
     (Some (Element \<lparr>tagName = ''SPAN'', localName = ''span'', classList = []\<rparr>
        [\<lparr>tagName = ''DIV'', localName = ''div'', classList = [''copy-btn'']\<rparr>]))
     (init 800 600) = init 800 600 \<and>
   handleParticleCreation (\<lambda>n. 0) 10 20
     (Some (Element \<lparr>tagName = ''SELECT'', localName = ''select'', classList = []\<rparr> []))
     (init 800 600) = init 800 600"
  using
    exclusion_no_particles [of "\<lparr>tagName = ''SPAN'', localName = ''span'', classList = []\<rparr>"
      "[\<lparr>tagName = ''DIV'', localName = ''div'', classList = [''copy-btn'']\<rparr>]"
      "\<lambda>n. 0" 10 20 "init 800 600"]
    exclusion_no_particles [of "\<lparr>tagName = ''SELECT'', localName = ''select'', classList = []\<rparr>"
      "[]" "\<lambda>n. 0" 10 20 "init 800 600"]
  by simp

text \<open>
  C5, as stated, fails: \<^verbatim>\<open>shouldCreateParticles\<close> returns false at once for a null or
  undefined target, so nothing is spawned.
\<close>

theorem absent_target_counterexample:
  "\<not> shouldCreateParticles None \<and>
   particles (handleParticleCreation (\<lambda>n. 0) 10 20 None (init 800 600)) = []"
  by (simp add: handleParticleCreation_def init_def)

text \<open>
  C5, amended: an absent interaction target is treated as excluded; the spawn request
  adds no particle and leaves the state as it was.
\<close>

theorem absent_target_no_spawn:
  "handleParticleCreation rnd x y None s = s"
  by (simp add: handleParticleCreation_def)

text \<open>
  C9: every target that the base variant's test rejects (tag CODE or PRE, or the target
  or an ancestor matching \<^verbatim>\<open>pre\<close>, \<^verbatim>\<open>button\<close> or \<^verbatim>\<open>.copy-btn\<close>) is rejected by the
  refined variant's test too: neither listener spawns.
\<close>

theorem base_exclusion_refined:
  assumes "base_excluded (Some t) = Inr True"
  shows "\<not> shouldCreateParticles (Some t) \<and>
         handleParticleCreation rnd x y (Some t) s = s \<and>
         base_click rnd x y (Some t) s = Inr s"
proof (cases t)
  case NonElement
  with assms show ?thesis by simp
next
  case (Element e anc)
  with assms have "\<not> shouldCreateParticles (Some t)"
    unfolding Element shouldCreateParticles_Element base_excluded_Element by blast
  then show ?thesis
    using assms by (simp add: handleParticleCreation_excluded base_click_def)
qed

theorem base_exclusion_refined_witness:
  "base_excluded
     (Some (Element \<lparr>tagName = ''SPAN'', localName = ''span'', classList = []\<rparr>
        [\<lparr>tagName = ''PRE'', localName = ''pre'', classList = []\<rparr>])) = Inr True \<and>
   \<not> shouldCreateParticles
     (Some (Element \<lparr>tagName = ''SPAN'', localName = ''span'', classList = []\<rparr>
        [\<lparr>tagName = ''PRE'', localName = ''pre'', classList = []\<rparr>])) \<and>
   base_click (\<lambda>n. 0) 10 20
     (Some (Element \<lparr>tagName = ''SPAN'', localName = ''span'', classList = []\<rparr>
        [\<lparr>tagName = ''PRE'', localName = ''pre'', classList = []\<rparr>])) (init 800 600)
     = Inr (init 800 600)"
proof -
  have h: "base_excluded
     (Some (Element \<lparr>tagName = ''SPAN'', localName = ''span'', classList = []\<rparr>
        [\<lparr>tagName = ''PRE'', localName = ''pre'', classList = []\<rparr>])) = Inr True"
    by (simp add: closest_def)
  show ?thesis
    using h base_exclusion_refined [OF h, of "\<lambda>n. 0" 10 20 "init 800 600"] by simp
qed

section \<open>The frame loop: reachable states and termination\<close>

lemma handleParticleCreation_eq:
  "handleParticleCreation rnd x y tgt s =
    (if \<not> shouldCreateParticles tgt then s
     else if falsy (animationId s)
       then s\<lparr>particles := particles s @ batch rnd x y (draws s) particleCount,
              draws := draws s + 5 * particleCount,
              frame_requests := frame_requests s @ [Suc (next_frame s)],
              next_frame := Suc (next_frame s),
              animationId := Some (Suc (next_frame s))\<rparr>
       else s\<lparr>particles := particles s @ batch rnd x y (draws s) particleCount,
              draws := draws s + 5 * particleCount\<rparr>)"
  by (simp add: handleParticleCreation_def createParticles_eq requestAnimationFrame_def Let_def)

lemma batch_decay:
  "unit_samples rnd \<Longrightarrow> p \<in> set (batch rnd x y k n) \<Longrightarrow> 0.01 \<le> decay p"
  by (induction n arbitrary: k) (auto dest: decay_Particle_at)

lemma batch_not_Nil: "batch rnd x y k particleCount \<noteq> []"
proof
  assume "batch rnd x y k particleCount = []"
  then have "length (batch rnd x y k particleCount) = 0"
    by simp
  then have "particleCount = 0"
    by (simp only: length_batch)
  then show False
    by (simp add: particleCount_def)
qed

lemma loop_inv_handleParticleCreation:
  assumes "unit_samples rnd" and "loop_inv s"
  shows "loop_inv (handleParticleCreation rnd x y tgt s)"
proof (cases "shouldCreateParticles tgt")
  case False
  then show ?thesis using assms(2) by (simp add: handleParticleCreation_excluded)
next
  case True
  have fresh: "\<forall>p \<in> set (batch rnd x y (draws s) particleCount).
      0 < life p \<and> life p \<le> 1 \<and> 0.01 \<le> decay p"
    using batch_origin [of _ rnd x y "draws s" particleCount]
      batch_decay [OF assms(1), of _ x y "draws s" particleCount] by auto
  show ?thesis
  proof (cases "animationId s")
    case None
    then show ?thesis
      using assms(2) fresh True batch_not_Nil [of rnd x y "draws s"]
      by (auto simp: handleParticleCreation_eq loop_inv_def falsy_def)
  next
    case (Some h)
    then show ?thesis
      using assms(2) fresh True batch_not_Nil [of rnd x y "draws s"]
      by (auto simp: handleParticleCreation_eq loop_inv_def falsy_def)
  qed
qed

lemma update_keeps_bounds:
  assumes "0 < life p \<and> life p \<le> 1 \<and> 0.01 \<le> decay p" and "fst (update p)"
  shows "0 < life (snd (update p)) \<and> life (snd (update p)) \<le> 1 \<and> 0.01 \<le> decay (snd (update p))"
  using assms by (simp add: update_fields)

lemma loop_inv_frame:
  assumes "loop_inv s"
  shows "loop_inv (frame s)"
proof (cases "animationId s")
  case None
  then show ?thesis using assms by (simp add: loop_inv_def frame_def)
next
  case (Some h)
  then have fr: "frame s = animate (s\<lparr>frame_requests := []\<rparr>)"
    using assms by (simp add: loop_inv_def frame_def)
  have "\<forall>p \<in> set (particles (frame s)). 0 < life p \<and> life p \<le> 1 \<and> 0.01 \<le> decay p"
    using assms update_keeps_bounds
    unfolding fr animate_particles loop_inv_def by auto
  then show ?thesis
    by (simp add: loop_inv_def fr animate_schedule)
qed

lemma loop_inv_cong:
  "particles s' = particles s \<Longrightarrow> animationId s' = animationId s \<Longrightarrow>
   frame_requests s' = frame_requests s \<Longrightarrow> loop_inv s' = loop_inv s"
  by (simp add: loop_inv_def)

lemma loop_inv_updates:
  "loop_inv (s\<lparr>canvas_width := cw\<rparr>) = loop_inv s"
  "loop_inv (s\<lparr>canvas_height := ch\<rparr>) = loop_inv s"
  "loop_inv (s\<lparr>innerWidth := iw\<rparr>) = loop_inv s"
  "loop_inv (s\<lparr>innerHeight := ih\<rparr>) = loop_inv s"
  "loop_inv (s\<lparr>timeout := tmo\<rparr>) = loop_inv s"
  "loop_inv (s\<lparr>timers := tms\<rparr>) = loop_inv s"
  "loop_inv (s\<lparr>next_timer := nt\<rparr>) = loop_inv s"
  "loop_inv (s\<lparr>now := t\<rparr>) = loop_inv s"
  "loop_inv (s\<lparr>ran := rs\<rparr>) = loop_inv s"
  by (simp_all add: loop_inv_def)

lemma loop_inv_func:
  assumes "unit_samples rnd" and "loop_inv s"
  shows "loop_inv (func rnd l e s)"
proof (cases l)
  case ClickListener
  then show ?thesis
    using loop_inv_handleParticleCreation [OF assms] by simp
next
  case TouchListener
  then show ?thesis
    using loop_inv_handleParticleCreation [OF assms] assms(2)
    by (cases "touches e") simp_all
next
  case ResizeListener
  have "loop_inv (resizeCanvas s)"
    using assms(2) by (simp add: loop_inv_updates resizeCanvas_def)
  then show ?thesis
    using ResizeListener by simp
qed

lemma loop_inv_run_callback:
  assumes "unit_samples rnd" and "loop_inv s"
  shows "loop_inv (run_callback rnd cb s)"
proof (cases cb)
  case DebounceFire
  have "loop_inv (resizeCanvas (s\<lparr>ran := ran s @ [(now s, DebounceFire)]\<rparr>))"
    using assms(2) by (simp add: loop_inv_updates resizeCanvas_def)
  then show ?thesis
    using DebounceFire by simp
next
  case (ThrottleFire l e)
  have "loop_inv (s\<lparr>timeout := (timeout s)(l := None), ran := ran s @ [(now s, ThrottleFire l e)]\<rparr>)"
    using assms(2) by (simp add: loop_inv_updates)
  then show ?thesis
    using ThrottleFire by (simp add: loop_inv_func [OF assms(1)])
qed

lemma loop_inv_run_timers:
  "unit_samples rnd \<Longrightarrow> loop_inv s \<Longrightarrow> loop_inv (run_timers rnd ts s)"
  by (induction ts arbitrary: s) (auto simp: loop_inv_run_callback)

lemma loop_inv_tick:
  assumes "unit_samples rnd" and "loop_inv s"
  shows "loop_inv (tick rnd s)"
proof -
  have "loop_inv (s\<lparr>now := Suc (now s),
      timers := filter (\<lambda>tm. \<not> is_due (Suc (now s)) tm) (timers s)\<rparr>)"
    using assms(2) by (simp add: loop_inv_updates)
  then show ?thesis
    unfolding tick_def Let_def by (rule loop_inv_run_timers [OF assms(1)])
qed

lemma loop_inv_elapse:
  "unit_samples rnd \<Longrightarrow> loop_inv s \<Longrightarrow> loop_inv (elapse rnd d s)"
  by (induction d arbitrary: s) (auto simp: loop_inv_tick)

lemma throttle_loop_fields:
  "particles (throttle l wait e s) = particles s"
  "animationId (throttle l wait e s) = animationId s"
  "frame_requests (throttle l wait e s) = frame_requests s"
  by (simp_all add: throttle_def setTimeout_def)

lemma debounce_loop_fields:
  "particles (debounce wait s) = particles s"
  "animationId (debounce wait s) = animationId s"
  "frame_requests (debounce wait s) = frame_requests s"
  by (simp_all add: debounce_def setTimeout_def clearTimeout_def split: option.split)

lemma loop_inv_throttle: "loop_inv s \<Longrightarrow> loop_inv (throttle l wait e s)"
  by (simp add: loop_inv_cong [of "throttle l wait e s" s] throttle_loop_fields)

lemma loop_inv_debounce: "loop_inv s \<Longrightarrow> loop_inv (debounce wait s)"
  by (simp add: loop_inv_cong [of "debounce wait s" s] debounce_loop_fields)

lemma loop_inv_step:
  assumes "unit_samples rnd" and "loop_inv s"
  shows "loop_inv (step rnd ev s)"
proof (cases ev)
  case (Resize w h)
  have "loop_inv (s\<lparr>innerWidth := w, innerHeight := h\<rparr>)"
    using assms(2) by (simp add: loop_inv_updates)
  then show ?thesis
    using Resize by (simp add: loop_inv_debounce)
qed (use assms in \<open>simp_all add: loop_inv_throttle loop_inv_elapse loop_inv_frame\<close>)

lemma reachable_loop_inv:
  assumes "unit_samples rnd"
  shows "reachable rnd s \<Longrightarrow> loop_inv s"
proof (induction rule: reachable.induct)
  case (reachable_init w h)
  show ?case by (simp add: loop_inv_def init_def)
next
  case (reachable_step s ev)
  then show ?case by (simp add: loop_inv_step [OF assms])
qed

lemma aged_frame:
  assumes "loop_inv s" and "aged n s" and "frame_requests s \<noteq> []"
  shows "aged (Suc n) (frame s)"
proof -
  from assms(1,3) obtain h where "frame_requests s = [h]"
    by (auto simp: loop_inv_def split: option.splits)
  then have fr: "frame s = animate (s\<lparr>frame_requests := []\<rparr>)"
    by (simp add: frame_def)
  have "life (snd (update p)) \<le> 1 - real (Suc n) * 0.01"
    if "p \<in> set (particles s)" for p
  proof -
    from that assms have "life p \<le> 1 - real n * 0.01" "0.01 \<le> decay p"
      by (auto simp: aged_def loop_inv_def)
    then have "life p - decay p \<le> 1 - (real n * 0.01 + 0.01)"
      by linarith
    moreover have "life (snd (update p)) = life p - decay p"
      by (simp add: update_fields)
    moreover have "real (Suc n) * 0.01 = real n * 0.01 + (0.01::real)"
      by (simp add: algebra_simps)
    ultimately show ?thesis by (simp only:)
  qed
  then show ?thesis
    unfolding fr animate_particles aged_def by auto
qed

lemma aged_out:
  assumes "loop_inv s" and "aged n s" and "100 \<le> n"
  shows "particles s = []"
proof (rule ccontr)
  assume "particles s \<noteq> []"
  then obtain p where p: "p \<in> set (particles s)"
    by (cases "particles s") auto
  with assms have "0 < life p" "life p \<le> 1 - real n * 0.01"
    by (auto simp: aged_def loop_inv_def)
  moreover have "1 - real n * 0.01 \<le> 0"
    using assms(3) by simp
  ultimately show False by simp
qed

lemma idle_when_no_request:
  assumes "loop_inv s" and "frame_requests s = []"
  shows "particles s = [] \<and> animationId s = None"
  using assms by (auto simp: loop_inv_def split: option.splits)

lemma run_frames_idle:
  assumes "loop_inv s" and "aged n s" and "100 \<le> n + fuel"
  shows "fst (run_frames fuel s) \<le> fuel \<and>
         frame_requests (snd (run_frames fuel s)) = [] \<and>
         particles (snd (run_frames fuel s)) = [] \<and>
         animationId (snd (run_frames fuel s)) = None"
  using assms
proof (induction fuel arbitrary: n s)
  case 0
  then have "particles s = []" by (simp add: aged_out)
  with 0 show ?case by (auto simp: loop_inv_def split: option.splits)
next
  case (Suc fuel)
  show ?case
  proof (cases "frame_requests s = []")
    case True
    then show ?thesis
      using idle_when_no_request [OF Suc.prems(1)] by simp
  next
    case False
    have "loop_inv (frame s)" "aged (Suc n) (frame s)"
      using Suc.prems False by (simp_all add: loop_inv_frame aged_frame)
    moreover have "100 \<le> Suc n + fuel"
      using Suc.prems by simp
    ultimately show ?thesis
      using Suc.IH [of "frame s" "Suc n"] False by (simp add: split_def Let_def)
  qed
qed

text \<open>
  C10: the decay rate the constructor samples is at least 0.01, so the life of a
  particle is at most 0 after 100 updates and its 100th update, at the latest, returns
  false; and from every state the page can reach, the frame loop left to itself (no
  further spawn) runs at most 100 more frames and is then idle, with no particle active
  and no frame requested.
\<close>

theorem particles_expire:
  assumes "unit_samples rnd" and "reachable rnd s"
  shows "0.01 \<le> decay (fst (Particle rnd x y s0)) \<and>
         life (updates 100 (fst (Particle rnd x y s0))) \<le> 0 \<and>
         \<not> fst (update (updates 99 (fst (Particle rnd x y s0)))) \<and>
         fst (run_frames 100 s) \<le> 100 \<and>
         frame_requests (snd (run_frames 100 s)) = [] \<and>
         particles (snd (run_frames 100 s)) = [] \<and>
         animationId (snd (run_frames 100 s)) = None"
proof -
  let ?p = "fst (Particle rnd x y s0)"
  have d: "0.01 \<le> decay ?p"
    using decay_Particle_at [OF assms(1), of x y "draws s0"] by (simp add: Particle_eq)
  have l: "life ?p = 1"
    by (simp add: Particle_eq Particle_at_def)
  have a: "life (updates 100 ?p) \<le> 0"
    using d l by (simp add: life_updates)
  have "life (updates 99 ?p) - decay (updates 99 ?p) \<le> 0"
    using d l by (simp add: life_updates decay_updates)
  then have b: "\<not> fst (update (updates 99 ?p))"
    by (simp add: update_fields)
  have inv: "loop_inv s"
    using assms by (rule reachable_loop_inv)
  then have "aged 0 s"
    by (simp add: aged_def loop_inv_def)
  with inv have "fst (run_frames 100 s) \<le> 100 \<and>
         frame_requests (snd (run_frames 100 s)) = [] \<and>
         particles (snd (run_frames 100 s)) = [] \<and>
         animationId (snd (run_frames 100 s)) = None"
    by (rule run_frames_idle) simp
  with d a b show ?thesis by simp
qed

theorem particles_expire_witness:
  "unit_samples (\<lambda>n. 0) \<and>
   reachable (\<lambda>n. 0)
     (step (\<lambda>n. 0) (Elapse 100)
       (step (\<lambda>n. 0) (Click \<lparr>clientX = 10, clientY = 20, touches = [], target = Some NonElement\<rparr>)
         (init 800 600))) \<and>
   decay (fst (Particle (\<lambda>n. 0) 10 20 (init 800 600))) = 0.01 \<and>
   \<not> fst (update (updates 99 (fst (Particle (\<lambda>n. 0) 10 20 (init 800 600))))) \<and>
   particles (snd (run_frames 100
     (step (\<lambda>n. 0) (Elapse 100)
       (step (\<lambda>n. 0) (Click \<lparr>clientX = 10, clientY = 20, touches = [], target = Some NonElement\<rparr>)
         (init 800 600))))) = []"
proof -
  have h: "unit_samples (\<lambda>n. 0)"
    by (simp add: unit_samples_def)
  have r: "reachable (\<lambda>n. 0)
     (step (\<lambda>n. 0) (Elapse 100)
       (step (\<lambda>n. 0) (Click \<lparr>clientX = 10, clientY = 20, touches = [], target = Some NonElement\<rparr>)
         (init 800 600)))"
    by (intro reachable.intros)
  show ?thesis
    using h r particles_expire [OF h r, of 10 20 "init 800 600"]
    by (simp add: Particle_eq Particle_at_def)
qed

section \<open>Timers: what running a callback changes\<close>

lemma handleParticleCreation_host:
  "timers (handleParticleCreation rnd x y tgt s) = timers s"
  "now (handleParticleCreation rnd x y tgt s) = now s"
  "next_timer (handleParticleCreation rnd x y tgt s) = next_timer s"
  "timeout (handleParticleCreation rnd x y tgt s) = timeout s"
  "ran (handleParticleCreation rnd x y tgt s) = ran s"
  "innerWidth (handleParticleCreation rnd x y tgt s) = innerWidth s"
  "innerHeight (handleParticleCreation rnd x y tgt s) = innerHeight s"
  "canvas_width (handleParticleCreation rnd x y tgt s) = canvas_width s"
  "canvas_height (handleParticleCreation rnd x y tgt s) = canvas_height s"
  by (simp_all add: handleParticleCreation_eq)

lemma func_host:
  "timers (func rnd l e s) = timers s"
  "now (func rnd l e s) = now s"
  "next_timer (func rnd l e s) = next_timer s"
  "timeout (func rnd l e s) = timeout s"
  "ran (func rnd l e s) = ran s"
  "innerWidth (func rnd l e s) = innerWidth s"
  "innerHeight (func rnd l e s) = innerHeight s"
  by (cases l; simp add: handleParticleCreation_host resizeCanvas_def split: list.split)+

lemma func_canvas:
  "canvas_width (func rnd l e s) = (if l = ResizeListener then innerWidth s else canvas_width s)"
  "canvas_height (func rnd l e s) = (if l = ResizeListener then innerHeight s else canvas_height s)"
  by (cases l; simp add: handleParticleCreation_host resizeCanvas_def split: list.split)+

lemma run_callback_host:
  "timers (run_callback rnd cb s) = timers s"
  "now (run_callback rnd cb s) = now s"
  "next_timer (run_callback rnd cb s) = next_timer s"
  "innerWidth (run_callback rnd cb s) = innerWidth s"
  "innerHeight (run_callback rnd cb s) = innerHeight s"
  "ran (run_callback rnd cb s) = ran s @ [(now s, cb)]"
  by (cases cb; simp add: func_host resizeCanvas_def)+

lemma run_callback_timeout:
  "timeout (run_callback rnd cb s) =
     (case cb of ThrottleFire l e \<Rightarrow> (timeout s)(l := None) | DebounceFire \<Rightarrow> timeout s)"
  by (cases cb) (simp_all add: func_host resizeCanvas_def)

lemma run_callback_canvas:
  "canvas_width (run_callback rnd cb s) =
     (if owner cb = ResizeListener then innerWidth s else canvas_width s)"
  "canvas_height (run_callback rnd cb s) =
     (if owner cb = ResizeListener then innerHeight s else canvas_height s)"
  by (cases cb; simp add: func_canvas resizeCanvas_def)+

lemma run_timers_Cons:
  "run_timers rnd (tm # ts) s = run_timers rnd ts (run_callback rnd (snd (snd tm)) s)"
  by (cases tm) simp

lemma run_timers_host_all:
  "timers (run_timers rnd ts s) = timers s \<and>
   now (run_timers rnd ts s) = now s \<and>
   next_timer (run_timers rnd ts s) = next_timer s \<and>
   innerWidth (run_timers rnd ts s) = innerWidth s \<and>
   innerHeight (run_timers rnd ts s) = innerHeight s"
  by (induction ts arbitrary: s) (simp_all add: run_timers_Cons run_callback_host)

lemma run_timers_host:
  "timers (run_timers rnd ts s) = timers s"
  "now (run_timers rnd ts s) = now s"
  "next_timer (run_timers rnd ts s) = next_timer s"
  "innerWidth (run_timers rnd ts s) = innerWidth s"
  "innerHeight (run_timers rnd ts s) = innerHeight s"
  using run_timers_host_all [of rnd ts s] by simp_all

lemma run_timers_ran:
  "ran (run_timers rnd ts s) = ran s @ map (\<lambda>tm. (now s, snd (snd tm))) ts"
  by (induction ts arbitrary: s) (simp_all add: run_timers_Cons run_callback_host)

lemma run_timers_timeout_other:
  "own l ts = [] \<Longrightarrow> timeout (run_timers rnd ts s) l = timeout s l"
proof (induction ts arbitrary: s)
  case Nil
  show ?case by simp
next
  case (Cons tm ts)
  obtain h d cb where tm: "tm = (h, d, cb)"
    by (cases tm)
  from Cons.prems have "owner cb \<noteq> l" "own l ts = []"
    by (simp_all add: own_def tm split: if_splits)
  then show ?case
    using Cons.IH [of "run_callback rnd cb s"]
    by (auto simp: tm run_callback_timeout split: callback.split)
qed

lemma run_timers_canvas_all:
  "canvas_width (run_timers rnd ts s) =
     (if own ResizeListener ts = [] then canvas_width s else innerWidth s) \<and>
   canvas_height (run_timers rnd ts s) =
     (if own ResizeListener ts = [] then canvas_height s else innerHeight s)"
  by (induction ts arbitrary: s)
    (simp_all add: run_timers_Cons run_callback_canvas run_callback_host own_def)

lemma run_timers_canvas:
  "canvas_width (run_timers rnd ts s) =
     (if own ResizeListener ts = [] then canvas_width s else innerWidth s)"
  "canvas_height (run_timers rnd ts s) =
     (if own ResizeListener ts = [] then canvas_height s else innerHeight s)"
  using run_timers_canvas_all [of rnd ts s] by simp_all

lemma tick_host:
  "now (tick rnd s) = Suc (now s)"
  "next_timer (tick rnd s) = next_timer s"
  "innerWidth (tick rnd s) = innerWidth s"
  "innerHeight (tick rnd s) = innerHeight s"
  "timers (tick rnd s) = filter (\<lambda>tm. \<not> is_due (Suc (now s)) tm) (timers s)"
  "ran (tick rnd s) =
     ran s @ map (\<lambda>tm. (Suc (now s), snd (snd tm))) (filter (is_due (Suc (now s))) (timers s))"
  by (simp_all add: tick_def Let_def run_timers_host run_timers_ran)

lemma own_filter: "own l (filter P ts) = filter P (own l ts)"
  by (auto simp: own_def intro: filter_cong)

lemma tick_timeout_other:
  "filter (is_due (Suc (now s))) (own l (timers s)) = [] \<Longrightarrow>
     timeout (tick rnd s) l = timeout s l"
  by (simp add: tick_def Let_def run_timers_timeout_other own_filter)

lemma tick_canvas:
  "canvas_width (tick rnd s) =
     (if filter (is_due (Suc (now s))) (own ResizeListener (timers s)) = []
      then canvas_width s else innerWidth s)"
  "canvas_height (tick rnd s) =
     (if filter (is_due (Suc (now s))) (own ResizeListener (timers s)) = []
      then canvas_height s else innerHeight s)"
  by (simp_all add: tick_def Let_def run_timers_canvas own_filter)

lemma tick_own:
  "own l (timers (tick rnd s)) = filter (\<lambda>tm. \<not> is_due (Suc (now s)) tm) (own l (timers s))"
  by (simp add: tick_host own_filter)

lemma own_ran_map:
  "own_ran l (map (\<lambda>tm. (t, snd (snd tm))) ts) = map (\<lambda>tm. (t, snd (snd tm))) (own l ts)"
  by (induction ts) (simp_all add: own_ran_def own_def)

lemma own_ran_append: "own_ran l (rs @ rs') = own_ran l rs @ own_ran l rs'"
  by (simp add: own_ran_def)

lemma tick_own_ran:
  "own_ran l (ran (tick rnd s)) =
     own_ran l (ran s)
       @ map (\<lambda>tm. (Suc (now s), snd (snd tm))) (filter (is_due (Suc (now s))) (own l (timers s)))"
  by (simp add: tick_host own_ran_append own_ran_map own_filter)


lemma run_timers_timeout:
  "timeout (run_timers rnd ts s) l =
     (if \<exists>tm \<in> set ts. \<exists>e. snd (snd tm) = ThrottleFire l e then None else timeout s l)"
  by (induction ts arbitrary: s)
    (auto simp: run_timers_Cons run_callback_timeout split: callback.split)

lemma tick_timeout_fired:
  "tm \<in> set (timers s) \<Longrightarrow> is_due (Suc (now s)) tm \<Longrightarrow> snd (snd tm) = ThrottleFire l e \<Longrightarrow>
     timeout (tick rnd s) l = None"
  by (cases tm) (auto simp: tick_def Let_def run_timers_timeout)

section \<open>Timers: the passing of time\<close>

lemma elapse_add: "elapse rnd (a + b) s = elapse rnd b (elapse rnd a s)"
  by (induction a arbitrary: s) simp_all

lemma elapse_Suc: "elapse rnd (Suc d) s = tick rnd (elapse rnd d s)"
  using elapse_add [of rnd d 1 s] by simp

lemma elapse_host:
  "now (elapse rnd d s) = now s + d"
  "next_timer (elapse rnd d s) = next_timer s"
  "innerWidth (elapse rnd d s) = innerWidth s"
  "innerHeight (elapse rnd d s) = innerHeight s"
  by (induction d arbitrary: s; simp add: tick_host)+

lemma quiet_not_due:
  "quiet l (Suc d) s \<Longrightarrow> filter (is_due (Suc (now s))) (own l (timers s)) = []"
  by (auto simp: quiet_def is_due_def filter_empty_conv)

lemma quiet_filter:
  "quiet l (Suc d) s \<Longrightarrow>
     filter (\<lambda>tm. \<not> is_due (Suc (now s)) tm) (own l (timers s)) = own l (timers s)"
  by (auto simp: quiet_def is_due_def filter_id_conv)

lemma quiet_tick: "quiet l (Suc d) s \<Longrightarrow> quiet l d (tick rnd s)"
  by (auto simp: quiet_def tick_host own_filter is_due_def)

lemma elapse_quiet:
  "quiet l d s \<Longrightarrow>
     own l (timers (elapse rnd d s)) = own l (timers s) \<and>
     own_ran l (ran (elapse rnd d s)) = own_ran l (ran s) \<and>
     timeout (elapse rnd d s) l = timeout s l"
proof (induction d arbitrary: s)
  case 0
  show ?case by simp
next
  case (Suc d)
  have "own l (timers (tick rnd s)) = own l (timers s)"
    "own_ran l (ran (tick rnd s)) = own_ran l (ran s)"
    "timeout (tick rnd s) l = timeout s l"
    using Suc.prems
    by (simp_all add: tick_own tick_own_ran tick_timeout_other quiet_not_due quiet_filter)
  then show ?case
    using Suc.IH [OF quiet_tick [OF Suc.prems]] by simp
qed

lemma elapse_quiet_canvas:
  "quiet ResizeListener d s \<Longrightarrow>
     canvas_width (elapse rnd d s) = canvas_width s \<and>
     canvas_height (elapse rnd d s) = canvas_height s"
proof (induction d arbitrary: s)
  case 0
  show ?case by simp
next
  case (Suc d)
  have "canvas_width (tick rnd s) = canvas_width s" "canvas_height (tick rnd s) = canvas_height s"
    using Suc.prems by (simp_all add: tick_canvas quiet_not_due)
  then show ?case
    using Suc.IH [OF quiet_tick [OF Suc.prems]] by simp
qed

text \<open>The tick in which the one pending timer of a wrapper falls due.\<close>

lemma tick_fires:
  assumes "own l (timers s) = [(h, Suc (now s), cb)]"
  shows "own l (timers (tick rnd s)) = []"
    and "own_ran l (ran (tick rnd s)) = own_ran l (ran s) @ [(Suc (now s), cb)]"
  using assms by (simp_all add: tick_own tick_own_ran is_due_def)

lemma elapse_fires:
  assumes "own l (timers s) = [(h, now s + Suc d, cb)]"
  shows "own l (timers (elapse rnd (Suc d) s)) = []"
    and "own_ran l (ran (elapse rnd (Suc d) s)) = own_ran l (ran s) @ [(now s + Suc d, cb)]"
proof -
  have q: "quiet l d s"
    using assms by (simp add: quiet_def)
  have "own l (timers (elapse rnd d s)) = [(h, Suc (now (elapse rnd d s)), cb)]"
    using elapse_quiet [OF q, of rnd] assms by (simp add: elapse_host)
  from tick_fires [OF this, of rnd]
  show "own l (timers (elapse rnd (Suc d) s)) = []"
    and "own_ran l (ran (elapse rnd (Suc d) s)) = own_ran l (ran s) @ [(now s + Suc d, cb)]"
    using elapse_quiet [OF q, of rnd] by (simp_all add: elapse_Suc elapse_host del: elapse.simps)
qed


section \<open>Timers: what holds in every reachable state\<close>

lemma throttle_idle:
  "falsy (timeout s l) \<Longrightarrow>
     throttle l w e s =
       s\<lparr>timers := timers s @ [(Suc (next_timer s), now s + w, ThrottleFire l e)],
         next_timer := Suc (next_timer s),
         timeout := (timeout s)(l := Some (Suc (next_timer s)))\<rparr>"
  by (simp add: throttle_def setTimeout_def)

lemma throttle_busy: "\<not> falsy (timeout s l) \<Longrightarrow> throttle l w e s = s"
  by (simp add: throttle_def)

lemma debounce_eq:
  "debounce w s =
     s\<lparr>timers :=
         (case timeout s ResizeListener of
            None \<Rightarrow> timers s
          | Some h \<Rightarrow> filter (\<lambda>tm. fst tm \<noteq> h) (timers s))
         @ [(Suc (next_timer s), now s + w, DebounceFire)],
       next_timer := Suc (next_timer s),
       timeout := (timeout s)(ResizeListener := Some (Suc (next_timer s)))\<rparr>"
  by (simp add: debounce_def setTimeout_def clearTimeout_def split_def split: option.split)

lemma timers_inv_entry:
  "timers_inv s \<Longrightarrow> tm \<in> set (timers s) \<Longrightarrow>
     now s < fst (snd tm) \<and> 0 < fst tm \<and> timeout s (owner (snd (snd tm))) = Some (fst tm)"
  by (simp add: timers_inv_def)

lemma idle_no_timer:
  assumes "timers_inv s" and "falsy (timeout s l)"
  shows "own l (timers s) = []"
proof (rule ccontr)
  assume "own l (timers s) \<noteq> []"
  then obtain tm where "tm \<in> set (timers s)" "owner (snd (snd tm)) = l"
    by (auto simp: own_def filter_empty_conv)
  with timers_inv_entry [OF assms(1), of tm] assms(2) show False
    by (auto simp: falsy_def)
qed

lemma busy_when_pending:
  assumes "timers_inv s" and "own l (timers s) \<noteq> []"
  shows "\<not> falsy (timeout s l)"
  using idle_no_timer [OF assms(1)] assms(2) by blast

lemma cleared_no_timer:
  assumes "timers_inv s"
  shows "own ResizeListener
           (case timeout s ResizeListener of
              None \<Rightarrow> timers s
            | Some h \<Rightarrow> filter (\<lambda>tm. fst tm \<noteq> h) (timers s)) = []"
proof (cases "timeout s ResizeListener")
  case None
  then show ?thesis
    using idle_no_timer [OF assms, of ResizeListener] by (simp add: falsy_def)
next
  case (Some h)
  have "fst tm = h" if "tm \<in> set (timers s)" "owner (snd (snd tm)) = ResizeListener" for tm
    using timers_inv_entry [OF assms that(1)] that(2) Some by simp
  then show ?thesis
    using Some by (auto simp: own_def filter_empty_conv)
qed

lemma debounce_own:
  assumes "timers_inv s"
  shows "own ResizeListener (timers (debounce w s)) = [(Suc (next_timer s), now s + w, DebounceFire)]"
proof -
  have "own ResizeListener (timers (debounce w s)) =
      own ResizeListener
           (case timeout s ResizeListener of
              None \<Rightarrow> timers s
            | Some h \<Rightarrow> filter (\<lambda>tm. fst tm \<noteq> h) (timers s))
      @ own ResizeListener [(Suc (next_timer s), now s + w, DebounceFire)]"
    by (simp add: debounce_eq own_def)
  then show ?thesis
    by (simp add: cleared_no_timer [OF assms]) (simp add: own_def)
qed

lemma timers_inv_append:
  assumes "timers_inv (s\<lparr>timers := ts\<rparr>)" and "own (owner cb) ts = []" and "0 < w"
  shows "timers_inv (s\<lparr>timers := ts @ [(Suc n, now s + w, cb)], next_timer := m,
                       timeout := (timeout s)(owner cb := Some (Suc n))\<rparr>)"
proof -
  have other: "\<forall>tm \<in> set ts. owner (snd (snd tm)) \<noteq> owner cb"
    using assms(2) by (auto simp: own_def filter_empty_conv)
  then have "owner cb \<notin> (\<lambda>tm. owner (snd (snd tm))) ` set ts"
    by (auto simp: image_iff)
  then show ?thesis
    using assms(1,3) other by (simp add: timers_inv_def)
qed

lemma timers_inv_throttle:
  assumes "timers_inv s" and "0 < w"
  shows "timers_inv (throttle l w e s)"
proof (cases "falsy (timeout s l)")
  case False
  then show ?thesis using assms(1) by (simp add: throttle_busy)
next
  case True
  have "timers_inv (s\<lparr>timers := timers s\<rparr>)"
    using assms(1) by simp
  from timers_inv_append [OF this, of "ThrottleFire l e" w "next_timer s" "Suc (next_timer s)"]
  show ?thesis
    using idle_no_timer [OF assms(1) True] assms(2) by (simp add: throttle_idle [OF True])
qed

lemma timers_inv_filter: "timers_inv s \<Longrightarrow> timers_inv (s\<lparr>timers := filter P (timers s)\<rparr>)"
  by (simp add: timers_inv_def distinct_map_filter)

lemma timers_inv_debounce:
  assumes "timers_inv s" and "0 < w"
  shows "timers_inv (debounce w s)"
proof -
  let ?ts = "case timeout s ResizeListener of
              None \<Rightarrow> timers s
            | Some h \<Rightarrow> filter (\<lambda>tm. fst tm \<noteq> h) (timers s)"
  have "timers_inv (s\<lparr>timers := ?ts\<rparr>)"
    using assms(1) timers_inv_filter [OF assms(1)] by (simp split: option.split)
  from timers_inv_append [OF this, of DebounceFire w "next_timer s" "Suc (next_timer s)"]
  show ?thesis
    using cleared_no_timer [OF assms(1)] assms(2) by (simp add: debounce_eq)
qed

lemma run_timers_inv:
  assumes "distinct (map (\<lambda>tm. owner (snd (snd tm))) (ts @ timers s))"
    and "\<forall>tm \<in> set (ts @ timers s). 0 < fst tm \<and> timeout s (owner (snd (snd tm))) = Some (fst tm)"
    and "\<forall>tm \<in> set (timers s). now s < fst (snd tm)"
  shows "timers_inv (run_timers rnd ts s)"
  using assms
proof (induction ts arbitrary: s)
  case Nil
  then show ?case by (simp add: timers_inv_def)
next
  case (Cons a ts)
  let ?s = "run_callback rnd (snd (snd a)) s"
  have other: "owner (snd (snd tm)) \<noteq> owner (snd (snd a))" if "tm \<in> set (ts @ timers s)" for tm
    using Cons.prems(1) that by (fastforce simp: image_iff)
  have "timeout ?s (owner (snd (snd tm))) = timeout s (owner (snd (snd tm)))"
    if "tm \<in> set (ts @ timers s)" for tm
    using other [OF that] by (auto simp: run_callback_timeout split: callback.split)
  then have cells: "\<forall>tm \<in> set (ts @ timers ?s).
      0 < fst tm \<and> timeout ?s (owner (snd (snd tm))) = Some (fst tm)"
    using Cons.prems(2) by (simp add: run_callback_host)
  have "distinct (map (\<lambda>tm. owner (snd (snd tm))) (ts @ timers ?s))"
    using Cons.prems(1) by (simp add: run_callback_host)
  moreover note cells
  moreover have "\<forall>tm \<in> set (timers ?s). now ?s < fst (snd tm)"
    using Cons.prems(3) by (simp add: run_callback_host)
  ultimately have "timers_inv (run_timers rnd ts ?s)"
    by (rule Cons.IH)
  then show ?case
    by (simp add: run_timers_Cons)
qed

lemma distinct_map_partition:
  "distinct (map f xs) \<Longrightarrow> distinct (map f (filter P xs @ filter (\<lambda>x. \<not> P x) xs))"
  by (auto simp: distinct_map_filter distinct_map inj_on_def)

lemma timers_inv_tick:
  assumes "timers_inv s"
  shows "timers_inv (tick rnd s)"
proof -
  let ?t = "Suc (now s)"
  let ?s = "s\<lparr>now := ?t, timers := filter (\<lambda>tm. \<not> is_due ?t tm) (timers s)\<rparr>"
  have "distinct (map (\<lambda>tm. owner (snd (snd tm))) (filter (is_due ?t) (timers s) @ timers ?s))"
    using assms by (simp add: timers_inv_def distinct_map_partition del: map_append)
  moreover have "\<forall>tm \<in> set (filter (is_due ?t) (timers s) @ timers ?s).
      0 < fst tm \<and> timeout ?s (owner (snd (snd tm))) = Some (fst tm)"
    using assms by (auto simp: timers_inv_def)
  moreover have "\<forall>tm \<in> set (timers ?s). now ?s < fst (snd tm)"
    by (auto simp: is_due_def)
  ultimately have "timers_inv (run_timers rnd (filter (is_due ?t) (timers s)) ?s)"
    by (rule run_timers_inv)
  then show ?thesis
    by (simp add: tick_def Let_def)
qed

lemma timers_inv_elapse: "timers_inv s \<Longrightarrow> timers_inv (elapse rnd d s)"
  by (induction d arbitrary: s) (simp_all add: timers_inv_tick)

lemma animate_host:
  "timers (animate s) = timers s"
  "now (animate s) = now s"
  "timeout (animate s) = timeout s"
  by (simp_all add: animate_def reschedule_def requestAnimationFrame_def split_def Let_def)

lemma timers_inv_frame: "timers_inv s \<Longrightarrow> timers_inv (frame s)"
  by (simp add: frame_def timers_inv_def animate_host split: list.split)

lemma timers_inv_step:
  assumes "timers_inv s"
  shows "timers_inv (step rnd ev s)"
proof (cases ev)
  case (Resize w h)
  have "timers_inv (s\<lparr>innerWidth := w, innerHeight := h\<rparr>)"
    using assms by (simp add: timers_inv_def)
  then show ?thesis
    using Resize by (simp add: timers_inv_debounce resizeDelay_def)
qed (use assms in \<open>simp_all add: timers_inv_throttle timers_inv_elapse timers_inv_frame
      throttleDelay_def\<close>)

lemma reachable_timers_inv: "reachable rnd s \<Longrightarrow> timers_inv s"
proof (induction rule: reachable.induct)
  case (reachable_init w h)
  show ?case by (simp add: timers_inv_def init_def)
next
  case (reachable_step s ev)
  then show ?case by (simp add: timers_inv_step)
qed


section \<open>The debounced resize\<close>

lemma reachable_run: "reachable rnd s \<Longrightarrow> reachable rnd (run rnd evs s)"
  by (induction evs arbitrary: s) (simp_all add: reachable_step)

lemma quiet_empty: "own l (timers s) = [] \<Longrightarrow> quiet l d s"
  by (simp add: quiet_def)

lemma quiet_single: "own l (timers s) = [(h, t, cb)] \<Longrightarrow> now s + d < t \<Longrightarrow> quiet l d s"
  by (simp add: quiet_def)

lemma elapse_fires_canvas:
  assumes "own ResizeListener (timers s) = [(h, now s + Suc d, cb)]"
  shows "canvas_width (elapse rnd (Suc d) s) = innerWidth s"
    and "canvas_height (elapse rnd (Suc d) s) = innerHeight s"
proof -
  have q: "quiet ResizeListener d s"
    using assms by (simp add: quiet_def)
  have "own ResizeListener (timers (elapse rnd d s)) = [(h, Suc (now (elapse rnd d s)), cb)]"
    using elapse_quiet [OF q, of rnd] assms by (simp add: elapse_host)
  then have "filter (is_due (Suc (now (elapse rnd d s)))) (own ResizeListener (timers (elapse rnd d s))) \<noteq> []"
    by (simp add: is_due_def)
  then show "canvas_width (elapse rnd (Suc d) s) = innerWidth s"
    and "canvas_height (elapse rnd (Suc d) s) = innerHeight s"
    by (simp_all add: elapse_Suc tick_canvas elapse_host del: elapse.simps)
qed

lemma debounce_host:
  "now (debounce w s) = now s"
  "ran (debounce w s) = ran s"
  "canvas_width (debounce w s) = canvas_width s"
  "canvas_height (debounce w s) = canvas_height s"
  "innerWidth (debounce w s) = innerWidth s"
  "innerHeight (debounce w s) = innerHeight s"
  by (simp_all add: debounce_eq)

lemma resize_step:
  assumes "reachable rnd s"
  shows "own ResizeListener (timers (step rnd (Resize w h) s))
           = [(Suc (next_timer s), now (step rnd (Resize w h) s) + resizeDelay, DebounceFire)]"
    and "own_ran ResizeListener (ran (step rnd (Resize w h) s)) = own_ran ResizeListener (ran s)"
    and "canvas_width (step rnd (Resize w h) s) = canvas_width s"
    and "canvas_height (step rnd (Resize w h) s) = canvas_height s"
    and "innerWidth (step rnd (Resize w h) s) = w"
    and "innerHeight (step rnd (Resize w h) s) = h"
proof -
  have inv: "timers_inv (s\<lparr>innerWidth := w, innerHeight := h\<rparr>)"
    using reachable_timers_inv [OF assms] by (simp add: timers_inv_def)
  show "own ResizeListener (timers (step rnd (Resize w h) s))
           = [(Suc (next_timer s), now (step rnd (Resize w h) s) + resizeDelay, DebounceFire)]"
    using debounce_own [OF inv, of resizeDelay] by (simp add: debounce_host)
qed (simp_all add: debounce_host)

lemma resize_burst_settling:
  assumes "reachable rnd s"
    and "\<exists>k. own ResizeListener (timers s) = [(k, now s + resizeDelay, DebounceFire)]"
    and "\<forall>g \<in> set rest. fst g < resizeDelay"
  shows "reachable rnd (run rnd (resize_burst rest) s) \<and>
     (\<exists>k. own ResizeListener (timers (run rnd (resize_burst rest) s))
            = [(k, now (run rnd (resize_burst rest) s) + resizeDelay, DebounceFire)]) \<and>
     own_ran ResizeListener (ran (run rnd (resize_burst rest) s)) = own_ran ResizeListener (ran s) \<and>
     canvas_width (run rnd (resize_burst rest) s) = canvas_width s \<and>
     canvas_height (run rnd (resize_burst rest) s) = canvas_height s \<and>
     (innerWidth (run rnd (resize_burst rest) s), innerHeight (run rnd (resize_burst rest) s))
        = last ((innerWidth s, innerHeight s) # map snd rest)"
  using assms
proof (induction rest arbitrary: s)
  case Nil
  then show ?case by simp
next
  case (Cons g rest)
  obtain gap w h where g: "g = (gap, w, h)"
    by (cases g)
  let ?a = "elapse rnd gap s"
  let ?b = "step rnd (Resize w h) ?a"
  from Cons.prems(2) obtain k where
    pend: "own ResizeListener (timers s) = [(k, now s + resizeDelay, DebounceFire)]"
    by blast
  have q: "quiet ResizeListener gap s"
    using pend Cons.prems(3) by (simp add: quiet_def g)
  have ra: "reachable rnd ?a"
    using reachable_step [OF Cons.prems(1), of "Elapse gap"] by simp
  then have rb: "reachable rnd ?b"
    by (rule reachable_step)
  have pb: "\<exists>k. own ResizeListener (timers ?b) = [(k, now ?b + resizeDelay, DebounceFire)]"
    using resize_step(1) [OF ra, of w h] by blast
  have gr: "\<forall>g \<in> set rest. fst g < resizeDelay"
    using Cons.prems(3) by simp
  have vb: "own_ran ResizeListener (ran ?b) = own_ran ResizeListener (ran s)"
    "canvas_width ?b = canvas_width s" "canvas_height ?b = canvas_height s"
    "innerWidth ?b = w" "innerHeight ?b = h"
    using elapse_quiet [OF q, of rnd] elapse_quiet_canvas [OF q, of rnd]
    by (simp_all only: resize_step(2-6) [OF ra])
  have run: "run rnd (resize_burst (g # rest)) s = run rnd (resize_burst rest) ?b"
    by (simp add: g)
  show ?case
    using Cons.IH [OF rb pb gr] unfolding run vb by (simp add: g)
qed


text \<open>
  C7: in a burst of resize events, each less than the settling delay of 250 ms after the
  one before, every event cancels the pending timer and sets a new one. So
  \<^verbatim>\<open>resizeCanvas\<close> does not run during the burst, nor in the 250 ms after its last
  event (the canvas keeps its size); it then runs, exactly once, and gives the canvas the
  viewport size of the last event of the burst.
\<close>

theorem resize_debounced:
  assumes "reachable rnd s" and "\<forall>g \<in> set rest. fst g < resizeDelay"
  shows "(d < resizeDelay \<longrightarrow>
           own_ran ResizeListener (ran (elapse rnd d (run rnd (Resize w h # resize_burst rest) s)))
             = own_ran ResizeListener (ran s) \<and>
           canvas_width (elapse rnd d (run rnd (Resize w h # resize_burst rest) s)) = canvas_width s \<and>
           canvas_height (elapse rnd d (run rnd (Resize w h # resize_burst rest) s)) = canvas_height s) \<and>
         (resizeDelay \<le> d \<longrightarrow>
           own_ran ResizeListener (ran (elapse rnd d (run rnd (Resize w h # resize_burst rest) s)))
             = own_ran ResizeListener (ran s)
               @ [(now (run rnd (Resize w h # resize_burst rest) s) + resizeDelay, DebounceFire)] \<and>
           (canvas_width (elapse rnd d (run rnd (Resize w h # resize_burst rest) s)),
            canvas_height (elapse rnd d (run rnd (Resize w h # resize_burst rest) s)))
             = last ((w, h) # map snd rest))"
proof -
  let ?s0 = "step rnd (Resize w h) s"
  let ?s1 = "run rnd (resize_burst rest) ?s0"
  have r0: "reachable rnd ?s0"
    using assms(1) by (rule reachable_step)
  have p0: "\<exists>k. own ResizeListener (timers ?s0) = [(k, now ?s0 + resizeDelay, DebounceFire)]"
    using resize_step(1) [OF assms(1), of w h] by blast
  note v0 = resize_step(2-6) [OF assms(1), of w h]
  from resize_burst_settling [OF r0 p0 assms(2)] obtain k where
    pend: "own ResizeListener (timers ?s1) = [(k, now ?s1 + resizeDelay, DebounceFire)]"
    and log: "own_ran ResizeListener (ran ?s1) = own_ran ResizeListener (ran s)"
    and cw: "canvas_width ?s1 = canvas_width s" and ch: "canvas_height ?s1 = canvas_height s"
    and dims: "(innerWidth ?s1, innerHeight ?s1) = last ((w, h) # map snd rest)"
    unfolding v0 by blast
  have early: "own_ran ResizeListener (ran (elapse rnd d ?s1)) = own_ran ResizeListener (ran s) \<and>
      canvas_width (elapse rnd d ?s1) = canvas_width s \<and>
      canvas_height (elapse rnd d ?s1) = canvas_height s" if "d < resizeDelay"
  proof -
    have "quiet ResizeListener d ?s1"
      using pend that by (simp add: quiet_def)
    from elapse_quiet [OF this, of rnd] elapse_quiet_canvas [OF this, of rnd]
    show ?thesis by (simp only: log cw ch)
  qed
  have late: "own_ran ResizeListener (ran (elapse rnd d ?s1))
        = own_ran ResizeListener (ran s) @ [(now ?s1 + resizeDelay, DebounceFire)] \<and>
      (canvas_width (elapse rnd d ?s1), canvas_height (elapse rnd d ?s1))
        = last ((w, h) # map snd rest)" if "resizeDelay \<le> d"
  proof -
    obtain m where m: "resizeDelay = Suc m"
      by (simp add: resizeDelay_def eval_nat_numeral)
    define j where "j = d - Suc m"
    have d: "d = Suc m + j"
      using that by (simp add: j_def m)
    let ?f = "elapse rnd (Suc m) ?s1"
    have pend': "own ResizeListener (timers ?s1) = [(k, now ?s1 + Suc m, DebounceFire)]"
      using pend by (simp add: m)
    have f1: "own ResizeListener (timers ?f) = []"
      and f2: "own_ran ResizeListener (ran ?f)
        = own_ran ResizeListener (ran ?s1) @ [(now ?s1 + Suc m, DebounceFire)]"
      using elapse_fires [OF pend', of rnd] by blast+
    have f3: "canvas_width ?f = innerWidth ?s1" "canvas_height ?f = innerHeight ?s1"
      using elapse_fires_canvas [OF pend', of rnd] by blast+
    have q: "quiet ResizeListener j ?f"
      using f1 by (rule quiet_empty)
    have split: "elapse rnd d ?s1 = elapse rnd j ?f"
      unfolding d by (rule elapse_add)
    show ?thesis
      unfolding split
      using elapse_quiet [OF q, of rnd] elapse_quiet_canvas [OF q, of rnd] dims
      by (simp only: f2 f3 log m)
  qed
  have run: "run rnd (Resize w h # resize_burst rest) s = ?s1"
    by simp
  show ?thesis
    unfolding run using early late by blast
qed


theorem resize_debounced_witness:
  "reachable (\<lambda>n. 0) (init 800 600) \<and>
   canvas_width (elapse (\<lambda>n. 0) 249
     (run (\<lambda>n. 0) (Resize 1000 700 # resize_burst [(100, 1200, 800), (249, 1024, 768)])
       (init 800 600))) = 800 \<and>
   canvas_width (elapse (\<lambda>n. 0) 250
     (run (\<lambda>n. 0) (Resize 1000 700 # resize_burst [(100, 1200, 800), (249, 1024, 768)])
       (init 800 600))) = 1024 \<and>
   canvas_height (elapse (\<lambda>n. 0) 250
     (run (\<lambda>n. 0) (Resize 1000 700 # resize_burst [(100, 1200, 800), (249, 1024, 768)])
       (init 800 600))) = 768 \<and>
   own_ran ResizeListener (ran (elapse (\<lambda>n. 0) 250
     (run (\<lambda>n. 0) (Resize 1000 700 # resize_burst [(100, 1200, 800), (249, 1024, 768)])
       (init 800 600)))) = [(599, DebounceFire)]"
proof -
  have r: "reachable (\<lambda>n. 0) (init 800 600)"
    by (rule reachable_init)
  have g: "\<forall>g \<in> set [(100, 1200, 800), (249, 1024, 768)]. fst g < resizeDelay"
    by (simp add: resizeDelay_def)
  show ?thesis
    using r resize_debounced [OF r g, of 249 1000 700] resize_debounced [OF r g, of 250 1000 700]
    by (simp add: resizeDelay_def own_ran_def elapse_host debounce_host) (simp add: init_def)
qed

section \<open>The throttled listeners\<close>

lemma throttle_host:
  "now (throttle l w e s) = now s"
  "ran (throttle l w e s) = ran s"
  "particles (throttle l w e s) = particles s"
  "draws (throttle l w e s) = draws s"
  by (simp_all add: throttle_def setTimeout_def)

lemma other_listener:
  "l \<noteq> ResizeListener \<Longrightarrow>
     other l \<noteq> l \<and> other l \<noteq> ResizeListener \<and>
     (l = ClickListener \<and> other l = TouchListener \<or> l = TouchListener \<and> other l = ClickListener)"
  by (cases l) (simp_all add: other_def)

lemma step_pointer: "l \<noteq> ResizeListener \<Longrightarrow> step rnd (pointer l e) s = throttle l throttleDelay e s"
  by (cases l) (simp_all add: pointer_def)

lemma pointer_step_idle:
  assumes "reachable rnd s" and "l \<noteq> ResizeListener" and "falsy (timeout s l)"
  shows "own l (timers (step rnd (pointer l e) s))
           = [(Suc (next_timer s), now s + throttleDelay, ThrottleFire l e)]"
    and "l' \<noteq> l \<Longrightarrow> own l' (timers (step rnd (pointer l e) s)) = own l' (timers s)"
  using idle_no_timer [OF reachable_timers_inv [OF assms(1)] assms(3)]
  by (simp_all add: step_pointer [OF assms(2)] throttle_idle [OF assms(3)] own_def)

lemma pointer_step_busy:
  assumes "reachable rnd s" and "l \<noteq> ResizeListener" and "own l (timers s) \<noteq> []"
  shows "step rnd (pointer l e) s = s"
  using busy_when_pending [OF reachable_timers_inv [OF assms(1)] assms(3)]
  by (simp add: step_pointer [OF assms(2)] throttle_busy)

lemma func_particles_cong:
  "particles s' = particles s \<Longrightarrow> draws s' = draws s \<Longrightarrow>
     particles (func rnd l e s') = particles (func rnd l e s) \<and>
     draws (func rnd l e s') = draws (func rnd l e s)"
  by (cases l) (simp_all add: handleParticleCreation_eq resizeCanvas_def split: list.split)

lemma func_particles_length:
  "length (particles (func rnd l e s)) \<le> length (particles s) + 30"
  by (cases l)
    (simp_all add: handleParticleCreation_particles length_batch resizeCanvas_def particleCount_def
      split: list.split)

lemma run_callback_resize_particles:
  "owner cb = ResizeListener \<Longrightarrow>
     particles (run_callback rnd cb s) = particles s \<and> draws (run_callback rnd cb s) = draws s"
  by (cases cb) (simp_all add: resizeCanvas_def)

lemma run_callback_spawn:
  "particles (run_callback rnd (ThrottleFire l e) s) = particles (func rnd l e s) \<and>
   draws (run_callback rnd (ThrottleFire l e) s) = draws (func rnd l e s)"
  using func_particles_cong
    [of "s\<lparr>timeout := (timeout s)(l := None), ran := ran s @ [(now s, ThrottleFire l e)]\<rparr>" s rnd l e]
  by simp

lemma run_timers_no_spawn:
  "own ClickListener ts = [] \<Longrightarrow> own TouchListener ts = [] \<Longrightarrow>
     particles (run_timers rnd ts s) = particles s \<and> draws (run_timers rnd ts s) = draws s"
proof (induction ts arbitrary: s)
  case Nil
  show ?case by simp
next
  case (Cons a ts)
  from Cons.prems have rest: "own ClickListener ts = []" "own TouchListener ts = []"
    and "owner (snd (snd a)) \<noteq> ClickListener" "owner (snd (snd a)) \<noteq> TouchListener"
    by (simp_all add: own_def split: if_splits)
  then have "owner (snd (snd a)) = ResizeListener"
    by (cases "owner (snd (snd a))") simp_all
  from run_callback_resize_particles [OF this, of rnd s] Cons.IH [OF rest]
  show ?case by (simp add: run_timers_Cons)
qed

lemma run_timers_one_spawn:
  assumes "l \<noteq> ResizeListener"
  shows "own (other l) ts = [] \<Longrightarrow> own l ts = [(h, t, ThrottleFire l e)] \<Longrightarrow>
     particles (run_timers rnd ts s) = particles (func rnd l e s) \<and>
     draws (run_timers rnd ts s) = draws (func rnd l e s)"
proof (induction ts arbitrary: s)
  case Nil
  then show ?case by (simp add: own_def)
next
  case (Cons a ts)
  note ol = other_listener [OF assms]
  from Cons.prems(1) have quiet': "own (other l) ts = []"
    and no: "owner (snd (snd a)) \<noteq> other l"
    by (simp_all add: own_def split: if_splits)
  show ?case
  proof (cases "owner (snd (snd a)) = l")
    case True
    with Cons.prems(2) have a: "a = (h, t, ThrottleFire l e)" and mine: "own l ts = []"
      by (simp_all add: own_def)
    have "own ClickListener ts = []" "own TouchListener ts = []"
      using ol mine quiet' by auto
    from run_timers_no_spawn [OF this, of rnd "run_callback rnd (ThrottleFire l e) s"]
    show ?thesis
      by (simp only: a run_timers.simps run_callback_spawn)
  next
    case False
    with no ol have r: "owner (snd (snd a)) = ResizeListener"
      by (cases "owner (snd (snd a))") auto
    from False Cons.prems(2) have mine: "own l ts = [(h, t, ThrottleFire l e)]"
      by (simp add: own_def)
    from run_callback_resize_particles [OF r, of rnd s]
    have "particles (run_callback rnd (snd (snd a)) s) = particles s"
      "draws (run_callback rnd (snd (snd a)) s) = draws s"
      by simp_all
    from func_particles_cong [OF this, of rnd l e]
      Cons.IH [OF quiet' mine, of "run_callback rnd (snd (snd a)) s"]
    show ?thesis by (simp add: run_timers_Cons)
  qed
qed

lemma tick_particles_quiet:
  assumes "quiet ClickListener (Suc d) s" and "quiet TouchListener (Suc d) s"
  shows "particles (tick rnd s) = particles s \<and> draws (tick rnd s) = draws s"
proof -
  have "own ClickListener (filter (is_due (Suc (now s))) (timers s)) = []"
    "own TouchListener (filter (is_due (Suc (now s))) (timers s)) = []"
    using assms by (simp_all add: own_filter quiet_not_due)
  from run_timers_no_spawn [OF this]
  show ?thesis by (simp add: tick_def Let_def)
qed

lemma elapse_particles_quiet:
  "quiet ClickListener d s \<Longrightarrow> quiet TouchListener d s \<Longrightarrow>
     particles (elapse rnd d s) = particles s \<and> draws (elapse rnd d s) = draws s"
proof (induction d arbitrary: s)
  case 0
  show ?case by simp
next
  case (Suc d)
  from tick_particles_quiet [OF Suc.prems, of rnd]
    Suc.IH [OF quiet_tick [OF Suc.prems(1)] quiet_tick [OF Suc.prems(2)], of rnd]
  show ?case by simp
qed

lemma elapse_particles_quiet_pair:
  assumes "l \<noteq> ResizeListener" and "quiet l d s" and "quiet (other l) d s"
  shows "particles (elapse rnd d s) = particles s \<and> draws (elapse rnd d s) = draws s"
  using other_listener [OF assms(1)] assms(2,3) elapse_particles_quiet [of d s rnd] by auto

lemma quiet_mono: "quiet l d s \<Longrightarrow> d' \<le> d \<Longrightarrow> quiet l d' s"
  unfolding quiet_def by (meson add_le_cancel_left le_less_trans)

lemma quiet_shift:
  "own l (timers s') = own l (timers s) \<Longrightarrow> now s' = now s + a \<Longrightarrow> quiet l (a + b) s \<Longrightarrow>
     quiet l b s'"
  by (simp add: quiet_def add.assoc)

lemma quiet_elapse: "quiet l (a + b) s \<Longrightarrow> quiet l b (elapse rnd a s)"
proof -
  assume q: "quiet l (a + b) s"
  then have "quiet l a s"
    by (rule quiet_mono) simp
  from elapse_quiet [OF this, of rnd] have "own l (timers (elapse rnd a s)) = own l (timers s)"
    by simp
  moreover have "now (elapse rnd a s) = now s + a"
    by (simp add: elapse_host)
  ultimately show ?thesis
    using q by (rule quiet_shift)
qed

lemma elapse_fires_particles:
  assumes "l \<noteq> ResizeListener"
    and "own l (timers s) = [(h, now s + Suc d, ThrottleFire l e)]"
    and "quiet (other l) (Suc d) s"
  shows "particles (elapse rnd (Suc d) s) = particles (func rnd l e s) \<and>
         draws (elapse rnd (Suc d) s) = draws (func rnd l e s)"
proof -
  let ?a = "elapse rnd d s"
  have ql: "quiet l d s"
    using assms(2) by (simp add: quiet_def)
  have qo: "quiet (other l) d s"
    using assms(3) by (rule quiet_mono) simp
  have pa: "particles ?a = particles s" "draws ?a = draws s"
    using elapse_particles_quiet_pair [OF assms(1) ql qo, of rnd] by simp_all
  have mine: "own l (timers ?a) = [(h, Suc (now ?a), ThrottleFire l e)]"
    using elapse_quiet [OF ql, of rnd] assms(2) by (simp add: elapse_host)
  have "quiet (other l) (Suc 0) ?a"
    using quiet_elapse [of "other l" d "Suc 0" s rnd] assms(3) by simp
  then have "own (other l) (filter (is_due (Suc (now ?a))) (timers ?a)) = []"
    by (simp add: own_filter quiet_not_due)
  moreover have "own l (filter (is_due (Suc (now ?a))) (timers ?a))
       = [(h, Suc (now ?a), ThrottleFire l e)]"
    using mine by (simp add: own_filter is_due_def)
  ultimately have "particles (tick rnd ?a) = particles (func rnd l e ?a) \<and>
      draws (tick rnd ?a) = draws (func rnd l e ?a)"
    using run_timers_one_spawn [OF assms(1), of "filter (is_due (Suc (now ?a))) (timers ?a)"
        h "Suc (now ?a)" e rnd
        "?a\<lparr>now := Suc (now ?a), timers := filter (\<lambda>tm. \<not> is_due (Suc (now ?a)) tm) (timers ?a)\<rparr>"]
      func_particles_cong [of
        "?a\<lparr>now := Suc (now ?a), timers := filter (\<lambda>tm. \<not> is_due (Suc (now ?a)) tm) (timers ?a)\<rparr>"
        ?a rnd l e]
    by (simp add: tick_def Let_def)
  then show ?thesis
    using func_particles_cong [OF pa, of rnd l e] by (simp only: elapse_Suc)
qed


lemma pointer_burst_ignored:
  assumes "l \<noteq> ResizeListener"
    and "reachable rnd s"
    and "\<exists>h. own l (timers s) = [(h, T, ThrottleFire l e)]"
    and "now s + sum_list (map fst rest) < T"
  shows "reachable rnd (run rnd (pointer_burst l rest) s) \<and>
     (\<exists>h. own l (timers (run rnd (pointer_burst l rest) s)) = [(h, T, ThrottleFire l e)]) \<and>
     own_ran l (ran (run rnd (pointer_burst l rest) s)) = own_ran l (ran s) \<and>
     now (run rnd (pointer_burst l rest) s) = now s + sum_list (map fst rest) \<and>
     (quiet (other l) (sum_list (map fst rest)) s \<longrightarrow>
        own (other l) (timers (run rnd (pointer_burst l rest) s)) = own (other l) (timers s) \<and>
        particles (run rnd (pointer_burst l rest) s) = particles s \<and>
        draws (run rnd (pointer_burst l rest) s) = draws s)"
  using assms(2-)
proof (induction rest arbitrary: s)
  case Nil
  then show ?case by simp
next
  case (Cons g rest)
  obtain gap e' where g: "g = (gap, e')"
    by (cases g)
  let ?a = "elapse rnd gap s"
  let ?n = "sum_list (map fst rest)"
  from Cons.prems(2) obtain h where pend: "own l (timers s) = [(h, T, ThrottleFire l e)]"
    by blast
  have ql: "quiet l gap s"
    using pend Cons.prems(3) by (simp add: quiet_def g)
  have ra: "reachable rnd ?a"
    using reachable_step [OF Cons.prems(1), of "Elapse gap"] by simp
  have va: "own l (timers ?a) = [(h, T, ThrottleFire l e)]"
    "own_ran l (ran ?a) = own_ran l (ran s)"
    "now ?a = now s + gap"
    using elapse_quiet [OF ql, of rnd] pend by (simp_all add: elapse_host)
  then have "step rnd (pointer l e') ?a = ?a"
    using pointer_step_busy [OF ra assms(1), of e'] by simp
  then have run: "run rnd (pointer_burst l (g # rest)) s = run rnd (pointer_burst l rest) ?a"
    by (simp add: g)
  have pa: "\<exists>h. own l (timers ?a) = [(h, T, ThrottleFire l e)]"
    using va(1) by blast
  have ta: "now ?a + ?n < T"
    using Cons.prems(3) by (simp add: va(3) g)
  have others: "quiet (other l) ?n ?a \<and> own (other l) (timers ?a) = own (other l) (timers s) \<and>
      particles ?a = particles s \<and> draws ?a = draws s"
    if q: "quiet (other l) (gap + ?n) s"
  proof -
    have qo: "quiet (other l) gap s"
      using q by (rule quiet_mono) simp
    show ?thesis
      using quiet_elapse [OF q, of rnd] elapse_quiet [OF qo, of rnd]
        elapse_particles_quiet_pair [OF assms(1) ql qo, of rnd]
      by simp
  qed
  show ?case
    using Cons.IH [OF ra pa ta] others unfolding run va by (simp add: g add.assoc)
qed

lemma tick_idle_step:
  "\<forall>tm \<in> set (timers s). Suc (now s) < fst (snd tm) \<Longrightarrow> tick rnd s = s\<lparr>now := Suc (now s)\<rparr>"
proof -
  assume a: "\<forall>tm \<in> set (timers s). Suc (now s) < fst (snd tm)"
  then have "filter (is_due (Suc (now s))) (timers s) = []"
    "filter (\<lambda>tm. \<not> is_due (Suc (now s)) tm) (timers s) = timers s"
    by (auto simp: is_due_def filter_empty_conv filter_id_conv)
  then show ?thesis
    by (simp add: tick_def Let_def)
qed

lemma elapse_idle:
  "\<forall>tm \<in> set (timers s). now s + d < fst (snd tm) \<Longrightarrow> elapse rnd d s = s\<lparr>now := now s + d\<rparr>"
proof (induction d arbitrary: s)
  case 0
  show ?case by simp
next
  case (Suc d)
  then have "tick rnd s = s\<lparr>now := Suc (now s)\<rparr>"
    by (intro tick_idle_step) auto
  moreover have "\<forall>tm \<in> set (timers (s\<lparr>now := Suc (now s)\<rparr>)).
      now (s\<lparr>now := Suc (now s)\<rparr>) + d < fst (snd tm)"
    using Suc.prems by simp
  ultimately show ?case
    using Suc.IH [of "s\<lparr>now := Suc (now s)\<rparr>"] by simp
qed

lemma elapse_100: "elapse rnd 100 s = elapse rnd 1 (elapse rnd 9 (elapse rnd 1 (elapse rnd 89 s)))"
  using elapse_add [of rnd 89 11 s] elapse_add [of rnd 1 10 "elapse rnd 89 s"]
    elapse_add [of rnd 9 1 "elapse rnd 1 (elapse rnd 89 s)"]
  by simp

text \<open>
  C6, as stated, fails: the click listener and the touch start listener are wrapped by
  two calls of \<^verbatim>\<open>throttle\<close>, each with its own \<^verbatim>\<open>timeout\<close> variable. A touch start and
  a click 10 ms later are two spawn-triggering events within one window of 100 ms; each
  sets its own timer, both handlers run, and two batches are spawned.
\<close>

theorem mixed_burst_counterexample:
  "length (particles (run (\<lambda>n. 0)
      [TouchStart \<lparr>clientX = 0, clientY = 0, touches = [(100, 120)], target = Some NonElement\<rparr>,
       Elapse 10,
       Click \<lparr>clientX = 100, clientY = 120, touches = [], target = Some NonElement\<rparr>,
       Elapse 100]
      (init 800 600))) = 60 \<and>
   ran (run (\<lambda>n. 0)
      [TouchStart \<lparr>clientX = 0, clientY = 0, touches = [(100, 120)], target = Some NonElement\<rparr>,
       Elapse 10,
       Click \<lparr>clientX = 100, clientY = 120, touches = [], target = Some NonElement\<rparr>,
       Elapse 100]
      (init 800 600))
    = [(100, ThrottleFire TouchListener
          \<lparr>clientX = 0, clientY = 0, touches = [(100, 120)], target = Some NonElement\<rparr>),
       (110, ThrottleFire ClickListener
          \<lparr>clientX = 100, clientY = 120, touches = [], target = Some NonElement\<rparr>)]"
  by (simp add: elapse_100 elapse_idle tick_def throttle_def setTimeout_def falsy_def init_def
      is_due_def throttleDelay_def handleParticleCreation_eq length_batch particleCount_def)

text \<open>
  C6, amended: for every burst of events of one throttled listener (clicks, or touch
  starts) that arrives within one window of 100 ms, the first event finding the wrapper
  idle, the wrapped handler of that listener does not run before the window has passed
  and runs exactly once when it has, with the first event; the later events of the burst
  are ignored. When no deferred call of the other throttled listener falls due in that
  time, the particles added are those of that one call: at most one batch.
\<close>

theorem pointer_throttled:
  assumes "reachable rnd s" and "l = ClickListener \<or> l = TouchListener"
    and "falsy (timeout s l)" and "sum_list (map fst rest) < throttleDelay"
  shows "(sum_list (map fst rest) + d < throttleDelay \<longrightarrow>
           own_ran l (ran (elapse rnd d (run rnd (pointer l e # pointer_burst l rest) s)))
             = own_ran l (ran s) \<and>
           (quiet (other l) (sum_list (map fst rest) + d) s \<longrightarrow>
              particles (elapse rnd d (run rnd (pointer l e # pointer_burst l rest) s))
                = particles s)) \<and>
         (throttleDelay \<le> sum_list (map fst rest) + d \<longrightarrow>
           own_ran l (ran (elapse rnd d (run rnd (pointer l e # pointer_burst l rest) s)))
             = own_ran l (ran s) @ [(now s + throttleDelay, ThrottleFire l e)] \<and>
           (quiet (other l) (sum_list (map fst rest) + d) s \<longrightarrow>
              particles (elapse rnd d (run rnd (pointer l e # pointer_burst l rest) s))
                = particles (func rnd l e s) \<and>
              length (particles (elapse rnd d (run rnd (pointer l e # pointer_burst l rest) s)))
                \<le> length (particles s) + 30))"
proof -
  let ?s0 = "step rnd (pointer l e) s"
  let ?s1 = "run rnd (pointer_burst l rest) ?s0"
  let ?T = "now s + throttleDelay"
  let ?n = "sum_list (map fst rest)"
  have l: "l \<noteq> ResizeListener"
    using assms(2) by auto
  note ol = other_listener [OF l]
  have r0: "reachable rnd ?s0"
    using assms(1) by (rule reachable_step)
  have p0: "\<exists>h. own l (timers ?s0) = [(h, ?T, ThrottleFire l e)]"
    using pointer_step_idle(1) [OF assms(1) l assms(3), of e] by blast
  have o0: "own (other l) (timers ?s0) = own (other l) (timers s)"
    using pointer_step_idle(2) [OF assms(1) l assms(3), of "other l" e] ol by simp
  have v0: "now ?s0 = now s" "ran ?s0 = ran s" "particles ?s0 = particles s" "draws ?s0 = draws s"
    by (simp_all add: step_pointer [OF l] throttle_host)
  have t0: "now ?s0 + ?n < ?T"
    using assms(4) by (simp add: v0)
  have q0: "quiet (other l) k ?s0" if "quiet (other l) k s" for k
    using that by (simp add: quiet_def o0 v0)
  from pointer_burst_ignored [OF l r0 p0 t0] obtain h where
    pend: "own l (timers ?s1) = [(h, ?T, ThrottleFire l e)]"
    and log: "own_ran l (ran ?s1) = own_ran l (ran s)"
    and time: "now ?s1 = now s + ?n"
    and others: "quiet (other l) ?n ?s0 \<longrightarrow>
        own (other l) (timers ?s1) = own (other l) (timers s) \<and>
        particles ?s1 = particles s \<and> draws ?s1 = draws s"
    unfolding v0 o0 by blast
  have calm: "quiet (other l) k ?s1 \<and> particles ?s1 = particles s \<and> draws ?s1 = draws s"
    if q: "quiet (other l) (?n + k) s" for k
  proof -
    have "quiet (other l) ?n s"
      using q by (rule quiet_mono) simp
    then have o1: "own (other l) (timers ?s1) = own (other l) (timers s)"
      and p1: "particles ?s1 = particles s" "draws ?s1 = draws s"
      using others q0 by blast+
    from quiet_shift [OF o1 time q] p1 show ?thesis
      by simp
  qed
  have early: "own_ran l (ran (elapse rnd d ?s1)) = own_ran l (ran s) \<and>
      (quiet (other l) (?n + d) s \<longrightarrow> particles (elapse rnd d ?s1) = particles s)"
    if "?n + d < throttleDelay"
  proof -
    have ql: "quiet l d ?s1"
      using pend that by (simp add: quiet_def time)
    have "particles (elapse rnd d ?s1) = particles s" if q: "quiet (other l) (?n + d) s"
      using elapse_particles_quiet_pair [OF l ql, of rnd] calm [OF q] by simp
    then show ?thesis
      using elapse_quiet [OF ql, of rnd] by (simp only: log) blast
  qed
  have late: "own_ran l (ran (elapse rnd d ?s1))
        = own_ran l (ran s) @ [(?T, ThrottleFire l e)] \<and>
      (quiet (other l) (?n + d) s \<longrightarrow>
         particles (elapse rnd d ?s1) = particles (func rnd l e s) \<and>
         length (particles (elapse rnd d ?s1)) \<le> length (particles s) + 30)"
    if "throttleDelay \<le> ?n + d"
  proof -
    define m where "m = throttleDelay - ?n - 1"
    define j where "j = d - Suc m"
    have m: "throttleDelay = ?n + Suc m"
      using assms(4) by (simp add: m_def)
    have d: "d = Suc m + j"
      using that by (simp add: j_def m)
    let ?f = "elapse rnd (Suc m) ?s1"
    have pend': "own l (timers ?s1) = [(h, now ?s1 + Suc m, ThrottleFire l e)]"
      using pend by (simp add: time m)
    have f1: "own l (timers ?f) = []"
      and f2: "own_ran l (ran ?f) = own_ran l (ran ?s1) @ [(now ?s1 + Suc m, ThrottleFire l e)]"
      using elapse_fires [OF pend', of rnd] by blast+
    have ql: "quiet l j ?f"
      using f1 by (rule quiet_empty)
    have split: "elapse rnd d ?s1 = elapse rnd j ?f"
      unfolding d by (rule elapse_add)
    have T: "now ?s1 + Suc m = ?T"
      by (simp add: time m)
    have "particles (elapse rnd j ?f) = particles (func rnd l e s)"
      if q: "quiet (other l) (?n + d) s"
    proof -
      from calm [OF q] have q1: "quiet (other l) (Suc m + j) ?s1"
        and p1: "particles ?s1 = particles s" "draws ?s1 = draws s"
        by (simp_all add: d)
      have "quiet (other l) (Suc m) ?s1"
        using q1 by (rule quiet_mono) simp
      from elapse_fires_particles [OF l pend' this, of rnd] func_particles_cong [OF p1, of rnd l e]
      have pf: "particles ?f = particles (func rnd l e s)"
        by simp
      have qo: "quiet (other l) j ?f"
        using q1 by (rule quiet_elapse)
      from elapse_particles_quiet_pair [OF l ql qo, of rnd] pf show ?thesis
        by simp
    qed
    then show ?thesis
      unfolding split using elapse_quiet [OF ql, of rnd] func_particles_length [of rnd l e s]
      by (simp only: f2 log T) auto
  qed
  have run: "run rnd (pointer l e # pointer_burst l rest) s = ?s1"
    by simp
  show ?thesis
    unfolding run using early late by blast
qed


theorem pointer_throttled_witness:
  "reachable (\<lambda>n. 0) (init 800 600) \<and>
   falsy (timeout (init 800 600) ClickListener) \<and>
   own_ran ClickListener (ran (elapse (\<lambda>n. 0) 39
     (run (\<lambda>n. 0)
       [Click \<lparr>clientX = 100, clientY = 120, touches = [], target = Some NonElement\<rparr>,
        Elapse 10,
        Click \<lparr>clientX = 5, clientY = 6, touches = [], target = Some NonElement\<rparr>,
        Elapse 50,
        Click \<lparr>clientX = 7, clientY = 8, touches = [], target = None\<rparr>]
       (init 800 600)))) = [] \<and>
   own_ran ClickListener (ran (elapse (\<lambda>n. 0) 40
     (run (\<lambda>n. 0)
       [Click \<lparr>clientX = 100, clientY = 120, touches = [], target = Some NonElement\<rparr>,
        Elapse 10,
        Click \<lparr>clientX = 5, clientY = 6, touches = [], target = Some NonElement\<rparr>,
        Elapse 50,
        Click \<lparr>clientX = 7, clientY = 8, touches = [], target = None\<rparr>]
       (init 800 600))))
     = [(100, ThrottleFire ClickListener
           \<lparr>clientX = 100, clientY = 120, touches = [], target = Some NonElement\<rparr>)] \<and>
   length (particles (elapse (\<lambda>n. 0) 40
     (run (\<lambda>n. 0)
       [Click \<lparr>clientX = 100, clientY = 120, touches = [], target = Some NonElement\<rparr>,
        Elapse 10,
        Click \<lparr>clientX = 5, clientY = 6, touches = [], target = Some NonElement\<rparr>,
        Elapse 50,
        Click \<lparr>clientX = 7, clientY = 8, touches = [], target = None\<rparr>]
       (init 800 600)))) = 30 \<and>
   own_ran TouchListener (ran (elapse (\<lambda>n. 0) 70
     (run (\<lambda>n. 0)
       [TouchStart \<lparr>clientX = 0, clientY = 0, touches = [(100, 120)], target = Some NonElement\<rparr>,
        Elapse 30,
        TouchStart \<lparr>clientX = 0, clientY = 0, touches = [(5, 6)], target = Some NonElement\<rparr>]
       (init 800 600))))
     = [(100, ThrottleFire TouchListener
           \<lparr>clientX = 0, clientY = 0, touches = [(100, 120)], target = Some NonElement\<rparr>)] \<and>
   length (particles (elapse (\<lambda>n. 0) 70
     (run (\<lambda>n. 0)
       [TouchStart \<lparr>clientX = 0, clientY = 0, touches = [(100, 120)], target = Some NonElement\<rparr>,
        Elapse 30,
        TouchStart \<lparr>clientX = 0, clientY = 0, touches = [(5, 6)], target = Some NonElement\<rparr>]
       (init 800 600)))) = 30"
proof -
  have r: "reachable (\<lambda>n. 0) (init 800 600)"
    by (rule reachable_init)
  have c: "ClickListener = ClickListener \<or> ClickListener = TouchListener"
    and t: "TouchListener = ClickListener \<or> TouchListener = TouchListener"
    by simp_all
  have f: "falsy (timeout (init 800 600) ClickListener)" "falsy (timeout (init 800 600) TouchListener)"
    by (simp_all add: falsy_def init_def)
  have g: "sum_list (map fst
      [(10, \<lparr>clientX = 5, clientY = 6, touches = [], target = Some NonElement\<rparr>),
       (50, \<lparr>clientX = 7, clientY = 8, touches = [], target = None\<rparr>)]) < throttleDelay"
    "sum_list (map fst
      [(30, \<lparr>clientX = 0, clientY = 0, touches = [(5, 6)], target = Some NonElement\<rparr>)])
        < throttleDelay"
    by (simp_all add: throttleDelay_def)
  have i: "particles (init 800 600) = []" "ran (init 800 600) = []" "now (init 800 600) = 0"
    "timers (init 800 600) = []" "draws (init 800 600) = 0"
    by (simp_all add: init_def)
  show ?thesis
    using r f(1)
      pointer_throttled [OF r c f(1) g(1), of 39
        "\<lparr>clientX = 100, clientY = 120, touches = [], target = Some NonElement\<rparr>"]
      pointer_throttled [OF r c f(1) g(1), of 40
        "\<lparr>clientX = 100, clientY = 120, touches = [], target = Some NonElement\<rparr>"]
      pointer_throttled [OF r t f(2) g(2), of 70
        "\<lparr>clientX = 0, clientY = 0, touches = [(100, 120)], target = Some NonElement\<rparr>"]
    by (simp add: i throttleDelay_def own_ran_def quiet_def own_def pointer_def
        handleParticleCreation_particles length_batch particleCount_def)
qed

end
